theory Spec2Isabelle
  imports Complex_Main "HOL-Library.Multiset"
begin

section \<open>Array utilities\<close>

text \<open>
  JavaScript arrays are objects on a heap; \<open>arrayMove\<close> copies its argument with
  \<open>slice(0)\<close> and mutates the copy with \<open>push\<close> and \<open>splice\<close>.  The heap is a
  list of arrays, an address is a position in it, and allocation appends.  An array
  element is \<open>None\<close> for \<open>undefined\<close>.  Indices are integers.
\<close>

type_synonym 'a jsarray = "'a option list"
type_synonym 'a heap = "'a jsarray list"

definition slice0 :: "'a heap \<Rightarrow> nat \<Rightarrow> nat \<times> 'a heap" where
  "slice0 h a = (length h, h @ [h ! a])"

definition push :: "'a heap \<Rightarrow> nat \<Rightarrow> 'a option \<Rightarrow> 'a heap" where
  "push h a v = h[a := (h ! a) @ [v]]"

definition splice_list :: "'a jsarray \<Rightarrow> int \<Rightarrow> int \<Rightarrow> 'a jsarray \<Rightarrow> 'a jsarray \<times> 'a jsarray" where
  "splice_list xs start deleteCount items =
     (let len = int (length xs);
          actualStart = (if start < 0 then max (len + start) 0 else min start len);
          actualDeleteCount = min (max deleteCount 0) (len - actualStart);
          s = nat actualStart;
          d = nat actualDeleteCount
      in (take d (drop s xs), take s xs @ items @ drop (s + d) xs))"

definition splice :: "'a heap \<Rightarrow> nat \<Rightarrow> int \<Rightarrow> int \<Rightarrow> 'a jsarray \<Rightarrow> 'a jsarray \<times> 'a heap" where
  "splice h a start deleteCount items =
     (let (removed, xs') = splice_list (h ! a) start deleteCount items
      in (removed, h[a := xs']))"

definition first_elem :: "'a jsarray \<Rightarrow> 'a option" where
  "first_elem xs = (case xs of [] \<Rightarrow> None | x # _ \<Rightarrow> x)"

partial_function (option) push_loop :: "int \<Rightarrow> 'a heap \<Rightarrow> nat \<Rightarrow> 'a heap option" where
  [code]: "push_loop k h array =
     (if k + 1 \<noteq> 0 then push_loop (k - 1) (push h array None) array else Some h)"

definition arrayMove :: "'a heap \<Rightarrow> nat \<Rightarrow> int \<Rightarrow> int \<Rightarrow> (nat \<times> 'a heap) option" where
  "arrayMove h arr previousIndex newIndex =
     (let (array, h1) = slice0 h arr
      in case (if newIndex \<ge> int (length (h1 ! array))
               then push_loop (newIndex - int (length (h1 ! array))) h1 array
               else Some h1) of
           None \<Rightarrow> None
         | Some h2 \<Rightarrow>
             (let (removed, h3) = splice h2 array previousIndex 1 [];
                  (removed', h4) = splice h3 array newIndex 0 [first_elem removed]
              in Some (array, h4)))"



section \<open>The sortable container\<close>

text \<open>
  Pixel quantities are JavaScript numbers; they are modelled as exact reals.  A value
  that may be \<open>undefined\<close> or \<open>null\<close> is an \<open>option\<close>.  A comparison with an
  undefined operand is false, as a comparison with \<open>NaN\<close> is.  Element extents
  (\<open>width\<close>, \<open>height\<close>) are divisors in \<open>autoscroll\<close>; the results on speed assume
  them positive.
\<close>

datatype error = TypeError | Invariant string

definition bindE :: "error + 'a \<Rightarrow> ('a \<Rightarrow> error + 'b) \<Rightarrow> error + 'b" where
  "bindE m f = (case m of Inl e \<Rightarrow> Inl e | Inr v \<Rightarrow> f v)"

definition need :: "'a option \<Rightarrow> error + 'a" where
  "need v = (case v of None \<Rightarrow> Inl TypeError | Some a \<Rightarrow> Inr a)"

record vec =
  vec_x :: real
  vec_y :: real

record edge =
  edge_top :: real
  edge_left :: real

record ovec =
  ovec_x :: "real option"
  ovec_y :: "real option"

definition js_ge :: "real \<Rightarrow> real option \<Rightarrow> bool" where
  "js_ge a b = (case b of None \<Rightarrow> False | Some b' \<Rightarrow> a \<ge> b')"

definition js_le :: "real \<Rightarrow> real option \<Rightarrow> bool" where
  "js_le a b = (case b of None \<Rightarrow> False | Some b' \<Rightarrow> a \<le> b')"

text \<open>\<open>limit\<close> of the utilities; a bound is undefined when its axis is disabled.\<close>

definition limit :: "real option \<Rightarrow> real option \<Rightarrow> real \<Rightarrow> real" where
  "limit mn mx v =
     (let upper = (case mx of None \<Rightarrow> v | Some hi \<Rightarrow> if v > hi then hi else v)
      in case mn of None \<Rightarrow> upper | Some lo \<Rightarrow> if v < lo then lo else upper)"

subsection \<open>Elements and their registry entries\<close>

text \<open>
  A DOM element as \<open>getEdgeOffset\<close> sees it: its own \<open>offsetTop\<close> and \<open>offsetLeft\<close>,
  whether its parent is the container, and the parent (\<open>None\<close> for \<open>null\<close>).
\<close>

datatype dom = Dom (dom_offsetTop: real) (dom_offsetLeft: real)
  (parentIsContainer: bool) (parentNode: "dom option")

fun getEdgeOffset :: "dom option \<Rightarrow> edge \<Rightarrow> edge option" where
  "getEdgeOffset None offset = None"
| "getEdgeOffset (Some (Dom t l pc p)) offset =
     (let nodeOffset = \<lparr>edge_top = edge_top offset + t, edge_left = edge_left offset + l\<rparr>
      in if \<not> pc then getEdgeOffset p nodeOffset else Some nodeOffset)"

datatype transform = Translate3d real real | TransformReset | TransformEmpty

datatype duration = DurationMs real | DurationEmpty

text \<open>
  A registry entry \<open>{node, edgeOffset}\<close> together with the element it refers to: the
  element's \<open>sortableInfo\<close> (index, translate), its measured size and the style
  properties the container writes.
\<close>

record sref =
  node_id :: nat
  sortable_index :: int
  offsetWidth :: real
  offsetHeight :: real
  node_dom :: dom
  edgeOffset :: "edge option"
  sortable_translate :: "vec option"
  style_transform :: "transform option"
  style_transitionDuration :: "duration option"
  style_hidden :: bool

record active =
  active_index :: "int option"
  active_collection :: int

datatype gap_position = ABOVE | BELOW

record hover_args =
  h_isOrigin :: bool
  draggedIndex :: "int option"
  draggedTop :: real
  draggedBottom :: real
  targetIndex :: int
  targetTop :: real
  targetBottom :: real
  gapIndex :: int
  gapPosition :: gap_position

record drop_args =
  d_isOrigin :: bool
  d_oldIndex :: "int option"
  d_newIndex :: "int option"
  d_collection :: int

record commit =
  oldIndex :: "int option"
  commit_newIndex :: "int option"
  commit_collection :: int

subsection \<open>Configuration\<close>

datatype unit_kind = Px | Percent

text \<open>
  One \<open>lockOffset\<close> value: a number (\<open>None\<close> when not finite), a string the pattern
  accepts with what \<open>parseFloat\<close> reads from it (\<open>None\<close> for \<open>NaN\<close>, as for \<open>"px"\<close>)
  and its unit, or any other string.
\<close>

datatype lock_value = LockNumber "real option" | LockString "real option" unit_kind | LockMalformed

datatype lock_offset = LockSingle lock_value | LockArray "lock_value list"

record props =
  props_axis :: string
  distance :: real
  pressDelay :: real
  useWindowAsScrollContainer :: bool
  useCustomEvents :: bool
  lockAxis :: "string option"
  lockToContainerEdges :: bool
  lockOffset :: lock_offset
  transitionDuration :: real
  hideSortableGhost :: bool
  onSortHover :: "(hover_args \<Rightarrow> bool) option"
  canSortDrop :: "(drop_args \<Rightarrow> bool) option"
  onSortEnd :: bool

definition truthy :: "real \<Rightarrow> bool" where
  "truthy n = (n \<noteq> 0)"

subsection \<open>The container instance\<close>

record axes =
  axis_x :: bool
  axis_y :: bool

record box =
  box_top :: real
  box_left :: real
  box_width :: real
  box_height :: real

record timer =
  timer_speed :: vec
  timer_direction :: vec

record pointer_event =
  touches :: "vec list option"
  pageX :: real
  pageY :: real

record container =
  manager_active :: "active option"
  manager_refs :: "int \<Rightarrow> sref list option"
  sorting :: bool
  isOrigin :: bool
  index :: "int option"
  newIndex :: "int option"
  width :: real
  height :: real
  marginOffset :: vec
  offsetEdge :: edge
  initialOffset :: vec
  initialScroll :: edge
  initialWindowScroll :: edge
  scroll :: edge
  windowScroll :: edge
  containerBoundingRect :: box
  axis :: axes
  minTranslate :: ovec
  maxTranslate :: ovec
  translate :: vec
  helper :: "transform option option"
  sortableGhost :: "nat option"
  listenerNode :: bool
  listening :: bool
  pressTimer :: bool
  autoscrollInterval :: "timer option"
  isAutoScrolling :: bool
  paused :: bool
  touched :: bool
  emitted :: "commit list"


definition init_container :: container where
  "init_container =
     \<lparr>manager_active = None, manager_refs = (\<lambda>c. None), sorting = False, isOrigin = False,
      index = None, newIndex = None, width = 0, height = 0,
      marginOffset = \<lparr>vec_x = 0, vec_y = 0\<rparr>,
      offsetEdge = \<lparr>edge_top = 0, edge_left = 0\<rparr>,
      initialOffset = \<lparr>vec_x = 0, vec_y = 0\<rparr>,
      initialScroll = \<lparr>edge_top = 0, edge_left = 0\<rparr>,
      initialWindowScroll = \<lparr>edge_top = 0, edge_left = 0\<rparr>,
      scroll = \<lparr>edge_top = 0, edge_left = 0\<rparr>,
      windowScroll = \<lparr>edge_top = 0, edge_left = 0\<rparr>,
      containerBoundingRect = \<lparr>box_top = 0, box_left = 0, box_width = 0, box_height = 0\<rparr>,
      axis = \<lparr>axis_x = False, axis_y = False\<rparr>,
      minTranslate = \<lparr>ovec_x = None, ovec_y = None\<rparr>,
      maxTranslate = \<lparr>ovec_x = None, ovec_y = None\<rparr>,
      translate = \<lparr>vec_x = 0, vec_y = 0\<rparr>,
      helper = None, sortableGhost = None, listenerNode = False, listening = False,
      pressTimer = False, autoscrollInterval = None, isAutoScrolling = False,
      paused = False, touched = False, emitted = []\<rparr>"

text \<open>
  The constructor: the registry is created empty, the component state is \<open>{}\<close>, and the
  two activation options are checked against each other.  Fields a later press
  assigns are \<open>undefined\<close> in the source until then; the record holds zeros there.
\<close>

definition construct :: "props \<Rightarrow> error + container" where
  "construct p =
     (if \<not> \<not> (truthy (distance p) \<and> truthy (pressDelay p))
      then Inl (Invariant ''Attempted to set both `pressDelay` and `distance` on SortableContainer, you may only use one or the other, not both at the same time.'')
      else Inr init_container)"

definition cancel :: "container \<Rightarrow> container" where
  "cancel s =
     (if \<not> sorting s then s\<lparr>manager_active := None, pressTimer := False\<rparr> else s)"

definition resetNode :: "transform \<Rightarrow> sref \<Rightarrow> sref" where
  "resetNode tr r =
     r\<lparr>edgeOffset := None, sortable_translate := Some \<lparr>vec_x = 0, vec_y = 0\<rparr>,
       style_transform := Some tr\<rparr>"

definition pauseSortMove :: "container \<Rightarrow> container" where
  "pauseSortMove s =
     (let s1 = (if autoscrollInterval s \<noteq> None
                then s\<lparr>autoscrollInterval := None, isAutoScrolling := False\<rparr> else s)
      in if paused s1 then s1
         else case manager_active s1 of
           None \<Rightarrow> s1
         | Some a \<Rightarrow>
             (case manager_refs s1 (active_collection a) of
                None \<Rightarrow> s1
              | Some nodes \<Rightarrow>
                  s1\<lparr>paused := True,
                     manager_refs := (manager_refs s1)
                       (active_collection a := Some (map (resetNode TransformReset) nodes))\<rparr>))"

definition showGhost :: "nat option \<Rightarrow> sref \<Rightarrow> sref" where
  "showGhost g r = (if g = Some (node_id r) then r\<lparr>style_hidden := False\<rparr> else r)"

definition handleSortEnd :: "props \<Rightarrow> container \<Rightarrow> error + container" where
  "handleSortEnd p s =
     bindE (need (manager_active s)) (\<lambda>a.
       let collection = active_collection a;
           s1 = (if listenerNode s then s\<lparr>listening := False\<rparr> else s);
           s2 = (if helper s1 \<noteq> None
                 then (if hideSortableGhost p \<and> sortableGhost s1 \<noteq> None
                       then s1\<lparr>helper := None,
                               manager_refs := (\<lambda>c. map_option (map (showGhost (sortableGhost s1)))
                                                        (manager_refs s1 c)),
                               sortableGhost := None\<rparr>
                       else s1\<lparr>helper := None\<rparr>)
                 else s1);
           s3 = (case manager_refs s2 collection of
                   None \<Rightarrow> s2
                 | Some nodes \<Rightarrow>
                     s2\<lparr>manager_refs := (manager_refs s2)
                          (collection := Some (map (\<lambda>r. (resetNode TransformEmpty r)
                               \<lparr>style_transitionDuration := Some DurationEmpty\<rparr>) nodes))\<rparr>);
           s4 = s3\<lparr>autoscrollInterval := None, manager_active := None,
                   isOrigin := False, sorting := False\<rparr>;
           s5 = (if onSortEnd p
                 then s4\<lparr>emitted := emitted s4 @
                        [\<lparr>oldIndex = index s4, commit_newIndex = newIndex s4,
                          commit_collection = collection\<rparr>]\<rparr>
                 else s4)
       in Inr (s5\<lparr>paused := False, touched := False\<rparr>))"

subsection \<open>Pointer position\<close>

definition getOffset :: "pointer_event \<Rightarrow> error + vec" where
  "getOffset e =
     (case touches e of
        None \<Rightarrow> Inr \<lparr>vec_x = pageX e, vec_y = pageY e\<rparr>
      | Some ts \<Rightarrow> (case ts of [] \<Rightarrow> Inl TypeError | t # _ \<Rightarrow> Inr t))"

definition getLockPixelOffset :: "container \<Rightarrow> lock_value \<Rightarrow> error + vec" where
  "getLockPixelOffset s v0 =
     (case v0 of
        LockMalformed \<Rightarrow>
          Inl (Invariant ''lockOffset value should be a number or a string of a number followed by px or %. Given %s'')
      | LockNumber n \<Rightarrow>
          (case n of
             None \<Rightarrow> Inl (Invariant ''lockOffset value should be a finite. Given %s'')
           | Some v \<Rightarrow> Inr \<lparr>vec_x = v, vec_y = v\<rparr>)
      | LockString n u \<Rightarrow>
          (case n of
             None \<Rightarrow> Inl (Invariant ''lockOffset value should be a finite. Given %s'')
           | Some v \<Rightarrow>
               Inr (if u = Percent
                    then \<lparr>vec_x = v * width s / 100, vec_y = v * height s / 100\<rparr>
                    else \<lparr>vec_x = v, vec_y = v\<rparr>)))"

definition getLockPixelOffsets :: "props \<Rightarrow> container \<Rightarrow> error + (vec \<times> vec)" where
  "getLockPixelOffsets p s =
     (let lo = (case lockOffset p of LockSingle v \<Rightarrow> [v, v] | LockArray vs \<Rightarrow> vs)
      in case lo of
           [minLockOffset, maxLockOffset] \<Rightarrow>
             bindE (getLockPixelOffset s minLockOffset) (\<lambda>mn.
             bindE (getLockPixelOffset s maxLockOffset) (\<lambda>mx. Inr (mn, mx)))
         | _ \<Rightarrow> Inl (Invariant ''lockOffset prop of SortableContainer should be a single value or an array of exactly two values. Given %s''))"

definition updatePosition :: "props \<Rightarrow> container \<Rightarrow> pointer_event \<Rightarrow> error + container" where
  "updatePosition p s e =
     bindE (getOffset e) (\<lambda>offset.
       let t0 = \<lparr>vec_x = vec_x offset - vec_x (initialOffset s),
                 vec_y = vec_y offset - vec_y (initialOffset s)\<rparr>;
           t1 = \<lparr>vec_x = vec_x t0 - (edge_left (windowScroll s) - edge_left (initialWindowScroll s)),
                 vec_y = vec_y t0 - (edge_top (windowScroll s) - edge_top (initialWindowScroll s))\<rparr>
       in bindE (if lockToContainerEdges p
                 then bindE (getLockPixelOffsets p s) (\<lambda>(minLockOffset, maxLockOffset).
                        let minOffset = \<lparr>vec_x = width s / 2 - vec_x minLockOffset,
                                         vec_y = height s / 2 - vec_y minLockOffset\<rparr>;
                            maxOffset = \<lparr>vec_x = width s / 2 - vec_x maxLockOffset,
                                         vec_y = height s / 2 - vec_y maxLockOffset\<rparr>
                        in Inr \<lparr>vec_x = limit (map_option (\<lambda>m. m + vec_x minOffset) (ovec_x (minTranslate s)))
                                                (map_option (\<lambda>m. m - vec_x maxOffset) (ovec_x (maxTranslate s)))
                                                (vec_x t1),
                                vec_y = limit (map_option (\<lambda>m. m + vec_y minOffset) (ovec_y (minTranslate s)))
                                                (map_option (\<lambda>m. m - vec_y maxOffset) (ovec_y (maxTranslate s)))
                                                (vec_y t1)\<rparr>)
                 else Inr t1) (\<lambda>t2.
            let t3 = (if lockAxis p = Some ''x'' then t2\<lparr>vec_y := 0\<rparr>
                      else if lockAxis p = Some ''y'' then t2\<lparr>vec_x := 0\<rparr>
                      else t2)
            in Inr (s\<lparr>translate := t3,
                      helper := (if helper s \<noteq> None
                                 then Some (Some (Translate3d (vec_x t3) (vec_y t3)))
                                 else helper s)\<rparr>)))"


subsection \<open>Press\<close>

text \<open>
  What \<open>handlePress\<close> measures: the margins of the pressed element
  (\<open>getElementMargin\<close>), its bounding rectangle and the container's, the helper
  dimensions (\<open>getHelperDimensions\<close>), the container's own scroll position and the
  inner size of the content window.
\<close>

record margins =
  margin_top :: real
  margin_right :: real
  margin_bottom :: real
  margin_left :: real

record geometry =
  g_margin :: margins
  g_nodeRect :: box
  g_containerRect :: box
  g_dimensions :: "real \<times> real"
  g_containerScroll :: edge
  g_innerWidth :: real
  g_innerHeight :: real

definition hideGhost :: "nat \<Rightarrow> sref \<Rightarrow> sref" where
  "hideGhost n r = (if node_id r = n then r\<lparr>style_hidden := True\<rparr> else r)"

text \<open>
  \<open>handlePress\<close>, with \<open>origin\<close> telling whether an origin was passed and \<open>node\<close>
  the element the press resolves to: \<open>origin.node\<close>, or the element of the registry's
  active handle (the lookup \<open>getActive\<close> is in the \<open>Manager\<close> module, not among the
  sources), \<open>None\<close> when there is none.  The helper is created without a transform;
  cloning and styling it are left out.
\<close>

definition handlePress ::
  "props \<Rightarrow> geometry \<Rightarrow> container \<Rightarrow> pointer_event \<Rightarrow> bool \<Rightarrow> nat option \<Rightarrow> error + container" where
  "handlePress p geo s e origin node =
     (let fromHere = \<not> origin;
          s0 = (if fromHere then s
                else s\<lparr>manager_active := Some \<lparr>active_index = None, active_collection = 0\<rparr>\<rparr>)
      in case node of
           None \<Rightarrow> Inr s0
         | Some n \<Rightarrow>
             bindE (need (manager_active s0)) (\<lambda>a.
             bindE (getOffset e) (\<lambda>off.
               let w = fst (g_dimensions geo);
                   h = snd (g_dimensions geo);
                   nr = g_nodeRect geo;
                   cr = g_containerRect geo;
                   ax = \<lparr>axis_x = (CHR ''x'' \<in> set (props_axis p)),
                         axis_y = (CHR ''y'' \<in> set (props_axis p))\<rparr>;
                   s1 = s0\<lparr>width := w, height := h,
                          marginOffset :=
                            \<lparr>vec_x = margin_left (g_margin geo) + margin_right (g_margin geo),
                             vec_y = max (margin_top (g_margin geo)) (margin_bottom (g_margin geo))\<rparr>,
                          containerBoundingRect := cr,
                          index := active_index a, newIndex := active_index a,
                          axis := ax,
                          offsetEdge :=
                            \<lparr>edge_top = box_top nr - box_top cr + edge_top (g_containerScroll geo),
                             edge_left = box_left nr - box_left cr + edge_left (g_containerScroll geo)\<rparr>,
                          initialOffset := off,
                          initialScroll := scroll s0,
                          initialWindowScroll := windowScroll s0\<rparr>;
                   s2 = (if fromHere
                         then (if hideSortableGhost p
                               then s1\<lparr>helper := Some None, sortableGhost := Some n,
                                       manager_refs := (\<lambda>c. map_option (map (hideGhost n))
                                                                (manager_refs s1 c))\<rparr>
                               else s1\<lparr>helper := Some None\<rparr>)
                         else s1);
                   s3 = s2\<lparr>minTranslate :=
                            \<lparr>ovec_x = (if axis_x ax
                                       then Some ((if useWindowAsScrollContainer p then 0 else box_left cr)
                                                  - box_left nr - w / 2)
                                       else None),
                             ovec_y = (if axis_y ax
                                       then Some ((if useWindowAsScrollContainer p then 0 else box_top cr)
                                                  - box_top nr - h / 2)
                                       else None)\<rparr>,
                          maxTranslate :=
                            \<lparr>ovec_x = (if axis_x ax
                                       then Some ((if useWindowAsScrollContainer p then g_innerWidth geo
                                                   else box_left cr + box_width cr)
                                                  - box_left nr - w / 2)
                                       else None),
                             ovec_y = (if axis_y ax
                                       then Some ((if useWindowAsScrollContainer p then g_innerHeight geo
                                                   else box_top cr + box_height cr)
                                                  - box_top nr - h / 2)
                                       else None)\<rparr>\<rparr>;
                   s4 = (if fromHere \<and> \<not> useCustomEvents p
                         then s3\<lparr>listenerNode := True, listening := True\<rparr> else s3)
               in Inr (s4\<lparr>isOrigin := fromHere, sorting := True\<rparr>))))"

subsection \<open>Reflow\<close>

text \<open>
  Modelled from the spec: the registry's \<open>getOrderedRefs\<close> (the \<open>Manager\<close> module) is
  not among the sources.  The spec's \<open>getOrdered(collection)\<close> returns the handles of
  the active collection in ascending index order, and an accessor that needs the
  active marker fails when there is none.
\<close>

definition getOrderedRefs :: "container \<Rightarrow> error + sref list" where
  "getOrderedRefs s =
     bindE (need (manager_active s)) (\<lambda>a.
     bindE (need (manager_refs s (active_collection a))) (\<lambda>refs.
       Inr (sort_key sortable_index refs)))"

text \<open>
  Comparing an item index with \<open>this.index\<close>, which is \<open>null\<close> when the drag
  started in another container: \<open>null\<close> compares as \<open>0\<close> under \<open><\<close> and \<open>>\<close>,
  and is never \<open>===\<close> a number.
\<close>

definition index_lt :: "int \<Rightarrow> int option \<Rightarrow> bool" where
  "index_lt i d = (case d of None \<Rightarrow> i < 0 | Some d' \<Rightarrow> i < d')"

definition index_gt :: "int \<Rightarrow> int option \<Rightarrow> bool" where
  "index_gt i d = (case d of None \<Rightarrow> i > 0 | Some d' \<Rightarrow> i > d')"

definition sortingLeft :: "container \<Rightarrow> real" where
  "sortingLeft s =
     (edge_left (offsetEdge s) + vec_x (translate s)
        + (edge_left (scroll s) - edge_left (initialScroll s)))
     + (edge_left (windowScroll s) - edge_left (initialWindowScroll s))"

definition sortingTop :: "container \<Rightarrow> real" where
  "sortingTop s =
     (edge_top (offsetEdge s) + vec_y (translate s)
        + (edge_top (scroll s) - edge_top (initialScroll s)))
     + (edge_top (windowScroll s) - edge_top (initialWindowScroll s))"

definition zero_vec :: vec where
  "zero_vec = \<lparr>vec_x = 0, vec_y = 0\<rparr>"

text \<open>
  What a loop iteration does to \<open>this.newIndex\<close>: nothing, the guarded assignment
  \<open>if (this.newIndex == null) this.newIndex = index\<close> of an item pushed forward, or the
  plain assignment \<open>this.newIndex = index\<close> of an item pushed back.
\<close>

datatype move = Stay | Forward | Back

definition setNewIndex :: "move \<Rightarrow> int \<Rightarrow> int option \<Rightarrow> int option" where
  "setNewIndex m idx newIdx =
     (case m of
        Stay \<Rightarrow> newIdx
      | Forward \<Rightarrow> (if newIdx = None then Some idx else newIdx)
      | Back \<Rightarrow> Some idx)"

text \<open>
  The grid branch (both axes enabled) of the loop body.  Its two overlap conditions
  are named: the dragged box is on the item's row at or left of it, or on a row above
  (\<open>overBefore\<close>); on the item's row at or right of it, or on a row below
  (\<open>overAfter\<close>).
\<close>

definition overBefore :: "container \<Rightarrow> real \<Rightarrow> real \<Rightarrow> edge \<Rightarrow> bool" where
  "overBefore s off_w off_h e =
     ((sortingLeft s - off_w \<le> edge_left e \<and> sortingTop s \<le> edge_top e + off_h)
      \<or> sortingTop s + off_h \<le> edge_top e)"

definition overAfter :: "container \<Rightarrow> real \<Rightarrow> real \<Rightarrow> real \<Rightarrow> edge \<Rightarrow> bool" where
  "overAfter s h off_w off_h e =
     ((sortingLeft s + off_w \<ge> edge_left e \<and> sortingTop s + off_h \<ge> edge_top e)
      \<or> sortingTop s + off_h \<ge> edge_top e + h)"

definition pastRight :: "container \<Rightarrow> real \<Rightarrow> edge \<Rightarrow> bool" where
  "pastRight s off_w e =
     (edge_left e + (width s + vec_x (marginOffset s))
        > box_width (containerBoundingRect s) - off_w)"

definition pastLeft :: "container \<Rightarrow> real \<Rightarrow> edge \<Rightarrow> bool" where
  "pastLeft s off_w e =
     (edge_left e + - (width s + vec_x (marginOffset s))
        < box_left (containerBoundingRect s) + off_w)"

definition gridTranslate ::
  "container \<Rightarrow> int \<Rightarrow> real \<Rightarrow> real \<Rightarrow> real \<Rightarrow> edge option \<Rightarrow> edge option \<Rightarrow> edge option
     \<Rightarrow> error + (vec \<times> move)" where
  "gridTranslate s idx h off_w off_h eo nextEdge prevEdge =
     bindE (if index_lt idx (index s)
            then bindE (need eo) (\<lambda>e. Inr (overBefore s off_w off_h e))
            else Inr False) (\<lambda>before.
     if before then
       bindE (need eo) (\<lambda>e.
         bindE (if pastRight s off_w e
                then bindE (need nextEdge) (\<lambda>n. Inr
                       \<lparr>vec_x = edge_left n - edge_left e, vec_y = edge_top n - edge_top e\<rparr>)
                else Inr \<lparr>vec_x = width s + vec_x (marginOffset s), vec_y = 0\<rparr>) (\<lambda>tr.
           Inr (tr, Forward)))
     else
       bindE (if index_gt idx (index s)
              then bindE (need eo) (\<lambda>e. Inr (overAfter s h off_w off_h e))
              else Inr False) (\<lambda>after.
       if after then
         bindE (need eo) (\<lambda>e.
           bindE (if pastLeft s off_w e
                  then bindE (need prevEdge) (\<lambda>pv. Inr
                         \<lparr>vec_x = edge_left pv - edge_left e, vec_y = edge_top pv - edge_top e\<rparr>)
                  else Inr \<lparr>vec_x = - (width s + vec_x (marginOffset s)), vec_y = 0\<rparr>) (\<lambda>tr.
             Inr (tr, Back)))
       else Inr (zero_vec, Stay)))"

text \<open>The horizontal branch (\<open>x\<close> only).\<close>

definition xTranslate ::
  "container \<Rightarrow> int \<Rightarrow> real \<Rightarrow> edge option \<Rightarrow> error + (vec \<times> move)" where
  "xTranslate s idx off_w eo =
     bindE (if index_gt idx (index s)
            then bindE (need eo) (\<lambda>e. Inr (sortingLeft s + off_w \<ge> edge_left e))
            else Inr False) (\<lambda>after.
     if after then
       Inr (\<lparr>vec_x = - (width s + vec_x (marginOffset s)), vec_y = 0\<rparr>, Back)
     else
       bindE (if \<not> isOrigin s \<or> index_lt idx (index s)
              then bindE (need eo) (\<lambda>e. Inr (sortingLeft s \<le> edge_left e + off_w))
              else Inr False) (\<lambda>before.
       if before then
         Inr (\<lparr>vec_x = width s + vec_x (marginOffset s), vec_y = 0\<rparr>, Forward)
       else Inr (zero_vec, Stay)))"

text \<open>The vertical branch (\<open>y\<close> only), with the optional hover callback.\<close>

definition yTranslate ::
  "props \<Rightarrow> container \<Rightarrow> int \<Rightarrow> real \<Rightarrow> edge option \<Rightarrow> vec option
     \<Rightarrow> error + (vec \<times> move)" where
  "yTranslate p s idx h eo own =
     bindE (need eo) (\<lambda>e.
       let dTop = sortingTop s;
           dBottom = dTop + height s;
           edgeTop = edge_top e;
           edgeBottom = edgeTop + h
       in if \<not> isOrigin s \<or> index_lt idx (index s) then
            bindE (case onSortHover p of
                     Some f \<Rightarrow>
                       if dTop < edgeBottom \<and> dTop > edgeTop then
                         bindE (need own) (\<lambda>t.
                           let hoverFromBelow = (vec_y t = 0)
                           in Inr (f \<lparr>h_isOrigin = isOrigin s,
                                      draggedIndex = index s, draggedTop = dTop,
                                      draggedBottom = dBottom,
                                      targetIndex = idx, targetTop = edgeTop,
                                      targetBottom = edgeBottom,
                                      gapIndex = (if hoverFromBelow then idx + 1 else idx),
                                      gapPosition = (if hoverFromBelow then BELOW else ABOVE)\<rparr>))
                       else Inr (dTop < edgeBottom)
                   | None \<Rightarrow> Inr (dTop < edgeBottom)) (\<lambda>shouldTranslate.
            if shouldTranslate
            then Inr (\<lparr>vec_x = 0, vec_y = height s + vec_y (marginOffset s)\<rparr>, Forward)
            else Inr (zero_vec, Stay))
          else if index_gt idx (index s) then
            bindE (case onSortHover p of
                     Some f \<Rightarrow>
                       if dBottom > edgeTop \<and> dBottom < edgeBottom then
                         bindE (need own) (\<lambda>t.
                           let hoverFromAbove = (vec_y t = 0)
                           in Inr (f \<lparr>h_isOrigin = isOrigin s,
                                      draggedIndex = index s, draggedTop = dTop,
                                      draggedBottom = dBottom,
                                      targetIndex = idx, targetTop = edgeTop,
                                      targetBottom = edgeBottom,
                                      gapIndex = (if hoverFromAbove then idx - 1 else idx),
                                      gapPosition = (if hoverFromAbove then ABOVE else BELOW)\<rparr>))
                       else Inr (dBottom > edgeTop)
                   | None \<Rightarrow> Inr (dBottom > edgeTop)) (\<lambda>shouldTranslate.
            if shouldTranslate
            then Inr (\<lparr>vec_x = 0, vec_y = - (height s + vec_y (marginOffset s))\<rparr>, Back)
            else Inr (zero_vec, Stay))
          else Inr (zero_vec, Stay))"

definition nodeTranslate ::
  "props \<Rightarrow> container \<Rightarrow> int \<Rightarrow> real \<Rightarrow> real \<Rightarrow> real \<Rightarrow> edge option \<Rightarrow> edge option
     \<Rightarrow> edge option \<Rightarrow> vec option \<Rightarrow> error + (vec \<times> move)" where
  "nodeTranslate p s idx h off_w off_h eo nextEdge prevEdge own =
     (if axis_x (axis s) then
        (if axis_y (axis s)
         then gridTranslate s idx h off_w off_h eo nextEdge prevEdge
         else xTranslate s idx off_w eo)
      else if axis_y (axis s) then yTranslate p s idx h eo own
      else Inr (zero_vec, Stay))"

definition cacheEdge :: "sref \<Rightarrow> sref" where
  "cacheEdge r =
     (if edgeOffset r = None
      then r\<lparr>edgeOffset := getEdgeOffset (Some (node_dom r)) \<lparr>edge_top = 0, edge_left = 0\<rparr>\<rparr>
      else r)"

definition halfWidth :: "container \<Rightarrow> sref \<Rightarrow> real" where
  "halfWidth s r = (if width s > offsetWidth r then offsetWidth r / 2 else width s / 2)"

definition halfHeight :: "container \<Rightarrow> sref \<Rightarrow> real" where
  "halfHeight s r = (if height s > offsetHeight r then offsetHeight r / 2 else height s / 2)"

type_synonym loop_state = "sref list \<times> int option \<times> nat option"

text \<open>
  One iteration of the first loop, on the ordered entries, the tentative new index
  and the ghost reference.
\<close>

definition animateNode :: "props \<Rightarrow> container \<Rightarrow> nat \<Rightarrow> loop_state \<Rightarrow> error + loop_state" where
  "animateNode p s i st =
     (case st of (nodes, newIdx, ghost) \<Rightarrow>
        let node = nodes ! i;
            idx = sortable_index node;
            h = offsetHeight node;
            off_w = halfWidth s node;
            off_h = halfHeight s node;
            nodes1 = nodes[i := cacheEdge node];
            eo = edgeOffset (nodes1 ! i);
            hasNext = (i < length nodes - 1);
            hasPrev = (i > 0);
            nodes2 = (if hasNext then nodes1[i + 1 := cacheEdge (nodes1 ! (i + 1))] else nodes1);
            nextEdge = (if hasNext then edgeOffset (nodes2 ! (i + 1)) else None);
            prevEdge = (if hasPrev then edgeOffset (nodes2 ! (i - 1)) else None)
        in if Some idx = index s then
             (if hideSortableGhost p
              then Inr (nodes2[i := (nodes2 ! i)\<lparr>style_hidden := True\<rparr>], newIdx,
                        Some (node_id node))
              else Inr (nodes2, newIdx, ghost))
           else
             bindE (nodeTranslate p s idx h off_w off_h eo nextEdge prevEdge
                      (sortable_translate (nodes2 ! i))) (\<lambda>(tr, m).
               Inr (nodes2[i := (nodes2 ! i)\<lparr>sortable_translate := Some tr\<rparr>],
                    setNewIndex m idx newIdx, ghost)))"

function animateLoop ::
  "props \<Rightarrow> container \<Rightarrow> nat \<Rightarrow> nat \<Rightarrow> loop_state \<Rightarrow> error + loop_state" where
  "animateLoop p s len i st =
     (if i < len
      then (case animateNode p s i st of
              Inl e \<Rightarrow> Inl e
            | Inr st' \<Rightarrow> animateLoop p s len (Suc i) st')
      else Inr st)"
  by pat_completeness auto
termination
  by (relation "measure (\<lambda>(p, s, len, i, st). len - i)") auto

declare animateLoop.simps [simp del]

text \<open>
  The first part of \<open>animateNodes\<close>: the ordered entries, the loop from
  \<open>this.newIndex = null\<close>, and the default to the original index.
\<close>

definition tentativeReflow :: "props \<Rightarrow> container \<Rightarrow> error + loop_state" where
  "tentativeReflow p s =
     bindE (getOrderedRefs s) (\<lambda>nodes.
     bindE (animateLoop p s (length nodes) 0 (nodes, None, sortableGhost s))
       (\<lambda>(nodes', newIdx, ghost).
          Inr (nodes', (if newIdx = None then index s else newIdx), ghost)))"

text \<open>The second loop: the transform is written on every entry that has a translate.\<close>

definition applyTransform :: "props \<Rightarrow> bool \<Rightarrow> sref \<Rightarrow> sref" where
  "applyTransform p allowed r =
     (case sortable_translate r of
        None \<Rightarrow> r
      | Some t \<Rightarrow>
          let t' = (if \<not> allowed then \<lparr>vec_x = 0, vec_y = 0\<rparr> else t);
              r1 = r\<lparr>sortable_translate := Some t'\<rparr>;
              r2 = (if truthy (transitionDuration p)
                    then r1\<lparr>style_transitionDuration := Some (DurationMs (transitionDuration p))\<rparr>
                    else r1)
          in r2\<lparr>style_transform := Some (Translate3d (vec_x t') (vec_y t'))\<rparr>)"

definition isDropAllowed :: "props \<Rightarrow> container \<Rightarrow> int option \<Rightarrow> error + bool" where
  "isDropAllowed p s newIdx =
     (case canSortDrop p of
        None \<Rightarrow> Inr True
      | Some f \<Rightarrow>
          bindE (need (manager_active s)) (\<lambda>a.
            Inr (f \<lparr>d_isOrigin = isOrigin s, d_oldIndex = index s, d_newIndex = newIdx,
                    d_collection = active_collection a\<rparr>)))"

definition animateNodes :: "props \<Rightarrow> container \<Rightarrow> error + container" where
  "animateNodes p s =
     bindE (tentativeReflow p s) (\<lambda>(nodes, tentative, ghost).
     bindE (isDropAllowed p s tentative) (\<lambda>allowed.
     bindE (need (manager_active s)) (\<lambda>a.
       Inr (s\<lparr>manager_refs := (manager_refs s)
                  (active_collection a := Some (map (applyTransform p allowed) nodes)),
               newIndex := (if \<not> allowed then index s else tentative),
               sortableGhost := ghost\<rparr>))))"

subsection \<open>Autoscroll\<close>

definition autoscroll :: "container \<Rightarrow> container" where
  "autoscroll s =
     (let t = translate s;
          w = width s;
          h = height s;
          (direction, speed) =
            (if js_ge (vec_y t) (map_option (\<lambda>m. m - h / 2) (ovec_y (maxTranslate s))) then
               (\<lparr>vec_x = 0, vec_y = 1\<rparr>,
                \<lparr>vec_x = 1, vec_y = 10 * \<bar>(the (ovec_y (maxTranslate s)) - h / 2 - vec_y t) / h\<bar>\<rparr>)
             else if js_ge (vec_x t) (map_option (\<lambda>m. m - w / 2) (ovec_x (maxTranslate s))) then
               (\<lparr>vec_x = 1, vec_y = 0\<rparr>,
                \<lparr>vec_x = 10 * \<bar>(the (ovec_x (maxTranslate s)) - w / 2 - vec_x t) / w\<bar>, vec_y = 1\<rparr>)
             else if js_le (vec_y t) (map_option (\<lambda>m. m + h / 2) (ovec_y (minTranslate s))) then
               (\<lparr>vec_x = 0, vec_y = - 1\<rparr>,
                \<lparr>vec_x = 1, vec_y = 10 * \<bar>(vec_y t - h / 2 - the (ovec_y (minTranslate s))) / h\<bar>\<rparr>)
             else if js_le (vec_x t) (map_option (\<lambda>m. m + w / 2) (ovec_x (minTranslate s))) then
               (\<lparr>vec_x = - 1, vec_y = 0\<rparr>,
                \<lparr>vec_x = 10 * \<bar>(vec_x t - w / 2 - the (ovec_x (minTranslate s))) / w\<bar>, vec_y = 1\<rparr>)
             else (\<lparr>vec_x = 0, vec_y = 0\<rparr>, \<lparr>vec_x = 1, vec_y = 1\<rparr>));
          s1 = (if autoscrollInterval s \<noteq> None
                then s\<lparr>autoscrollInterval := None, isAutoScrolling := False\<rparr> else s)
      in if vec_x direction \<noteq> 0 \<or> vec_y direction \<noteq> 0
         then s1\<lparr>autoscrollInterval := Some \<lparr>timer_speed = speed, timer_direction = direction\<rparr>\<rparr>
         else s1)"

text \<open>
  One firing of the interval callback that \<open>autoscroll\<close> installs; the callback closes
  over the speed and direction computed then.  The scroll container is taken to accept
  the increment as written.
\<close>

definition autoscrollTick :: "props \<Rightarrow> container \<Rightarrow> error + container" where
  "autoscrollTick p s =
     (case autoscrollInterval s of
        None \<Rightarrow> Inr s
      | Some tm \<Rightarrow>
          let off_left = 1 * vec_x (timer_speed tm) * vec_x (timer_direction tm);
              off_top = 1 * vec_y (timer_speed tm) * vec_y (timer_direction tm)
          in animateNodes p
               (s\<lparr>isAutoScrolling := True,
                  scroll := \<lparr>edge_top = edge_top (scroll s) + off_top,
                             edge_left = edge_left (scroll s) + off_left\<rparr>,
                  translate := \<lparr>vec_x = vec_x (translate s) + off_left,
                                vec_y = vec_y (translate s) + off_top\<rparr>\<rparr>))"

definition handleSortMove :: "props \<Rightarrow> container \<Rightarrow> pointer_event \<Rightarrow> error + container" where
  "handleSortMove p s e =
     bindE (updatePosition p (if paused s then s\<lparr>paused := False\<rparr> else s) e) (\<lambda>s1.
     bindE (animateNodes p s1) (\<lambda>s2.
       Inr (autoscroll s2)))"


text \<open>
  What can happen to a session between press and end: a pointer move, a firing of the
  autoscroll timer, a pause.
\<close>

datatype session_step = Move pointer_event | Tick | Pause

definition step :: "props \<Rightarrow> container \<Rightarrow> session_step \<Rightarrow> error + container" where
  "step p s st =
     (case st of
        Move e \<Rightarrow> handleSortMove p s e
      | Tick \<Rightarrow> autoscrollTick p s
      | Pause \<Rightarrow> Inr (pauseSortMove s))"

fun runSteps :: "props \<Rightarrow> container \<Rightarrow> session_step list \<Rightarrow> error + container" where
  "runSteps p s [] = Inr s"
| "runSteps p s (st # sts) =
     (case step p s st of Inl e \<Rightarrow> Inl e | Inr s' \<Rightarrow> runSteps p s' sts)"

subsection \<open>The loop, entry by entry\<close>

text \<open>
  What the first loop computes for the entry at position \<open>i\<close> of the ordered list
  \<open>N\<close> once every edge offset is cached: the arguments the loop body passes to
  \<open>nodeTranslate\<close> are read off \<open>N\<close>.
\<close>

definition decision :: "props \<Rightarrow> container \<Rightarrow> sref list \<Rightarrow> nat \<Rightarrow> error + (vec \<times> move)" where
  "decision p s N i =
     (let r = N ! i
      in nodeTranslate p s (sortable_index r) (offsetHeight r) (halfWidth s r) (halfHeight s r)
           (edgeOffset r)
           (if i < length N - 1 then edgeOffset (N ! (i + 1)) else None)
           (if i > 0 then edgeOffset (N ! (i - 1)) else None)
           (sortable_translate r))"

definition isDragged :: "container \<Rightarrow> sref \<Rightarrow> bool" where
  "isDragged s r = (Some (sortable_index r) = index s)"

definition moveAt :: "props \<Rightarrow> container \<Rightarrow> sref list \<Rightarrow> nat \<Rightarrow> move" where
  "moveAt p s N i =
     (if isDragged s (N ! i) then Stay
      else case decision p s N i of Inl e \<Rightarrow> Stay | Inr (tr, m) \<Rightarrow> m)"

definition finalRef :: "props \<Rightarrow> container \<Rightarrow> sref list \<Rightarrow> nat \<Rightarrow> sref" where
  "finalRef p s N i =
     (let r = N ! i
      in if isDragged s r then (if hideSortableGhost p then r\<lparr>style_hidden := True\<rparr> else r)
         else case decision p s N i of
                Inl e \<Rightarrow> r
              | Inr (tr, m) \<Rightarrow> r\<lparr>sortable_translate := Some tr\<rparr>)"

definition loopInv :: "props \<Rightarrow> container \<Rightarrow> sref list \<Rightarrow> nat \<Rightarrow> sref list \<Rightarrow> bool" where
  "loopInv p s N i nodes =
     (length nodes = length N \<and>
      (\<forall>j < length N. (j < i \<longrightarrow> nodes ! j = finalRef p s N j)
                     \<and> (i \<le> j \<longrightarrow> cacheEdge (nodes ! j) = N ! j)))"

text \<open>The tentative index after the iterations \<open>js\<close>, from \<open>k\<close>.\<close>

definition foldIndex :: "props \<Rightarrow> container \<Rightarrow> sref list \<Rightarrow> int option \<Rightarrow> nat list \<Rightarrow> int option" where
  "foldIndex p s N k js = foldl (\<lambda>k j. setNewIndex (moveAt p s N j) (sortable_index (N ! j)) k) k js"

text \<open>The signed shift of an entry by one slot \<open>d\<close>.\<close>

definition shiftOf :: "move \<Rightarrow> real \<Rightarrow> real" where
  "shiftOf m d = (case m of Stay \<Rightarrow> 0 | Forward \<Rightarrow> d | Back \<Rightarrow> - d)"

subsection \<open>The swap conditions of the loop body\<close>

text \<open>
  The guards of the loop body, as predicates on an entry whose edge offset is cached.
  \<open>swapsForward\<close> is the guard of the branch that gives the entry a positive translate
  and assigns \<open>this.newIndex\<close> when it is still \<open>null\<close>; \<open>swapsBack\<close> is the guard
  of the branch that gives it a negative translate and assigns \<open>this.newIndex\<close>.  The
  dragged entry is skipped.  In the grid branch the forward guard is tested first, in
  the horizontal branch the backward one; in the vertical branch the hover callback,
  when there is one, decides while the dragged edge lies strictly inside the entry.
\<close>

definition swapsForward :: "props \<Rightarrow> container \<Rightarrow> sref \<Rightarrow> bool" where
  "swapsForward p s r =
     (Some (sortable_index r) \<noteq> index s \<and>
      (case edgeOffset r of
         None \<Rightarrow> False
       | Some e \<Rightarrow>
           let idx = sortable_index r;
               dLeft = sortingLeft s;
               dTop = sortingTop s;
               off_w = halfWidth s r;
               off_h = halfHeight s r;
               edgeBottom = edge_top e + offsetHeight r
           in if axis_x (axis s) \<and> axis_y (axis s) then
                index_lt idx (index s)
                \<and> ((dLeft - off_w \<le> edge_left e \<and> dTop \<le> edge_top e + off_h)
                   \<or> dTop + off_h \<le> edge_top e)
              else if axis_x (axis s) then
                \<not> (index_gt idx (index s) \<and> dLeft + off_w \<ge> edge_left e)
                \<and> (\<not> isOrigin s \<or> index_lt idx (index s))
                \<and> dLeft \<le> edge_left e + off_w
              else if axis_y (axis s) then
                (\<not> isOrigin s \<or> index_lt idx (index s))
                \<and> (case onSortHover p of
                     None \<Rightarrow> dTop < edgeBottom
                   | Some f \<Rightarrow>
                       if dTop < edgeBottom \<and> dTop > edge_top e
                       then (case sortable_translate r of
                               None \<Rightarrow> False
                             | Some t \<Rightarrow>
                                 f \<lparr>h_isOrigin = isOrigin s, draggedIndex = index s,
                                    draggedTop = dTop, draggedBottom = dTop + height s,
                                    targetIndex = idx, targetTop = edge_top e,
                                    targetBottom = edgeBottom,
                                    gapIndex = (if vec_y t = 0 then idx + 1 else idx),
                                    gapPosition = (if vec_y t = 0 then BELOW else ABOVE)\<rparr>)
                       else dTop < edgeBottom)
              else False))"

definition swapsBack :: "props \<Rightarrow> container \<Rightarrow> sref \<Rightarrow> bool" where
  "swapsBack p s r =
     (Some (sortable_index r) \<noteq> index s \<and>
      (case edgeOffset r of
         None \<Rightarrow> False
       | Some e \<Rightarrow>
           let idx = sortable_index r;
               dLeft = sortingLeft s;
               dTop = sortingTop s;
               dBottom = dTop + height s;
               off_w = halfWidth s r;
               off_h = halfHeight s r;
               edgeBottom = edge_top e + offsetHeight r
           in if axis_x (axis s) \<and> axis_y (axis s) then
                index_gt idx (index s)
                \<and> ((dLeft + off_w \<ge> edge_left e \<and> dTop + off_h \<ge> edge_top e)
                   \<or> dTop + off_h \<ge> edge_top e + offsetHeight r)
              else if axis_x (axis s) then
                index_gt idx (index s) \<and> dLeft + off_w \<ge> edge_left e
              else if axis_y (axis s) then
                isOrigin s \<and> index_gt idx (index s)
                \<and> (case onSortHover p of
                     None \<Rightarrow> dBottom > edge_top e
                   | Some f \<Rightarrow>
                       if dBottom > edge_top e \<and> dBottom < edgeBottom
                       then (case sortable_translate r of
                               None \<Rightarrow> False
                             | Some t \<Rightarrow>
                                 f \<lparr>h_isOrigin = isOrigin s, draggedIndex = index s,
                                    draggedTop = dTop, draggedBottom = dBottom,
                                    targetIndex = idx, targetTop = edge_top e,
                                    targetBottom = edgeBottom,
                                    gapIndex = (if vec_y t = 0 then idx - 1 else idx),
                                    gapPosition = (if vec_y t = 0 then ABOVE else BELOW)\<rparr>)
                       else dBottom > edge_top e)
              else False))"

subsection \<open>Statements of the specification\<close>




text \<open>
  The specification's autoscroll zones: the translate is within half an extent of
  the maximum, respectively minimum, translate bound of its axis.
\<close>

definition nearMax :: "real \<Rightarrow> real option \<Rightarrow> real \<Rightarrow> bool" where
  "nearMax t bound extent = (case bound of None \<Rightarrow> False | Some b \<Rightarrow> t \<ge> b - extent / 2)"

definition nearMin :: "real \<Rightarrow> real option \<Rightarrow> real \<Rightarrow> bool" where
  "nearMin t bound extent = (case bound of None \<Rightarrow> False | Some b \<Rightarrow> t \<le> b + extent / 2)"

subsection \<open>Observations and sample sessions\<close>


definition transformsOf :: "error + container \<Rightarrow> int \<Rightarrow> transform option list option" where
  "transformsOf r c =
     (case r of Inl e \<Rightarrow> None | Inr s \<Rightarrow> map_option (map style_transform) (manager_refs s c))"

definition newIndexOf :: "error + container \<Rightarrow> int option option" where
  "newIndexOf r = (case r of Inl e \<Rightarrow> None | Inr s \<Rightarrow> Some (newIndex s))"


text \<open>Every field of an instance, its registry at collection 0.\<close>

definition observe where
  "observe s =
     ((manager_active s, manager_refs s 0, sorting s, isOrigin s, index s, newIndex s),
      (width s, height s, marginOffset s, offsetEdge s, initialOffset s, initialScroll s,
       initialWindowScroll s, scroll s, windowScroll s),
      (containerBoundingRect s, axis s, minTranslate s, maxTranslate s, translate s),
      (helper s, sortableGhost s, listenerNode s, listening s, pressTimer s),
      (autoscrollInterval s, isAutoScrolling s, paused s, touched s, emitted s))"

text \<open>The default configuration, with an \<open>onSortEnd\<close> callback.\<close>

definition default_props :: props where
  "default_props =
     \<lparr>props_axis = ''y'', distance = 0, pressDelay = 0, useWindowAsScrollContainer = False,
      useCustomEvents = False, lockAxis = None, lockToContainerEdges = False,
      lockOffset = LockSingle (LockString (Some 50) Percent), transitionDuration = 300,
      hideSortableGhost = True, onSortHover = None, canSortDrop = None, onSortEnd = True\<rparr>"

text \<open>
  An element of 100 by 100 pixels that is a child of the container, as
  \<open>setDraggable\<close> registers it: translate \<open>{x: 0, y: 0}\<close>, nothing cached.
\<close>

definition item :: "nat \<Rightarrow> int \<Rightarrow> real \<Rightarrow> real \<Rightarrow> sref" where
  "item n idx t l =
     \<lparr>node_id = n, sortable_index = idx, offsetWidth = 100, offsetHeight = 100,
      node_dom = Dom t l True None, edgeOffset = None,
      sortable_translate = Some \<lparr>vec_x = 0, vec_y = 0\<rparr>,
      style_transform = None, style_transitionDuration = None, style_hidden = False\<rparr>"

text \<open>The pressed element, hidden behind the helper.\<close>

definition pressed :: "sref \<Rightarrow> sref" where
  "pressed r = r\<lparr>style_hidden := True\<rparr>"

definition sample_refs :: "sref list \<Rightarrow> int \<Rightarrow> sref list option" where
  "sample_refs rs c = (if c = 0 then Some rs else None)"

text \<open>
  An instance as \<open>handleStart\<close> leaves it on a press of the element with index \<open>i\<close>,
  the measurements of an element at \<open>(t, l)\<close> in a container of \<open>w\<close> by \<open>h\<close> at the
  origin of the page, and a mouse event.
\<close>

definition started :: "sref list \<Rightarrow> int \<Rightarrow> container" where
  "started rs i = init_container
     \<lparr>manager_active := Some \<lparr>active_index = Some i, active_collection = 0\<rparr>,
      manager_refs := sample_refs rs, touched := True\<rparr>"

definition sample_geometry :: "real \<Rightarrow> real \<Rightarrow> real \<Rightarrow> real \<Rightarrow> geometry" where
  "sample_geometry t l w h =
     \<lparr>g_margin = \<lparr>margin_top = 0, margin_right = 0, margin_bottom = 0, margin_left = 0\<rparr>,
      g_nodeRect = \<lparr>box_top = t, box_left = l, box_width = 100, box_height = 100\<rparr>,
      g_containerRect = \<lparr>box_top = 0, box_left = 0, box_width = w, box_height = h\<rparr>,
      g_dimensions = (100, 100),
      g_containerScroll = \<lparr>edge_top = 0, edge_left = 0\<rparr>,
      g_innerWidth = 1024, g_innerHeight = 768\<rparr>"

definition pointer_at :: "real \<Rightarrow> real \<Rightarrow> pointer_event" where
  "pointer_at px py = \<lparr>touches = None, pageX = px, pageY = py\<rparr>"

text \<open>
  A vertical list of three items in a container of 100 by 300; the first item has
  been pressed at its centre and the pointer has moved 10 pixels down.
\<close>

definition vertical_unpressed :: "sref list" where
  "vertical_unpressed = [item 0 0 0 0, item 1 1 100 0, item 2 2 200 0]"

definition vertical_items :: "sref list" where
  "vertical_items = [pressed (item 0 0 0 0), item 1 1 100 0, item 2 2 200 0]"

definition vertical_drag :: container where
  "vertical_drag = init_container
     \<lparr>manager_active := Some \<lparr>active_index = Some 0, active_collection = 0\<rparr>,
      manager_refs := sample_refs vertical_items,
      sorting := True, isOrigin := True, index := Some 0, newIndex := Some 0,
      width := 100, height := 100,
      initialOffset := \<lparr>vec_x = 50, vec_y = 50\<rparr>,
      containerBoundingRect := \<lparr>box_top = 0, box_left = 0, box_width = 100, box_height = 300\<rparr>,
      axis := \<lparr>axis_x = False, axis_y = True\<rparr>,
      minTranslate := \<lparr>ovec_x = None, ovec_y = Some (- 50)\<rparr>,
      maxTranslate := \<lparr>ovec_x = None, ovec_y = Some 250\<rparr>,
      translate := \<lparr>vec_x = 0, vec_y = 10\<rparr>,
      helper := Some (Some (Translate3d 0 10)), sortableGhost := Some 0,
      listenerNode := True, listening := True, touched := True\<rparr>"

text \<open>The same three items in a row, the pointer 50 pixels to the right.\<close>

definition horizontal_props :: props where
  "horizontal_props = default_props\<lparr>props_axis := ''x''\<rparr>"

definition horizontal_unpressed :: "sref list" where
  "horizontal_unpressed = [item 0 0 0 0, item 1 1 0 100, item 2 2 0 200]"

definition horizontal_items :: "sref list" where
  "horizontal_items = [pressed (item 0 0 0 0), item 1 1 0 100, item 2 2 0 200]"

definition horizontal_drag :: container where
  "horizontal_drag = init_container
     \<lparr>manager_active := Some \<lparr>active_index = Some 0, active_collection = 0\<rparr>,
      manager_refs := sample_refs horizontal_items,
      sorting := True, isOrigin := True, index := Some 0, newIndex := Some 0,
      width := 100, height := 100,
      initialOffset := \<lparr>vec_x = 50, vec_y = 50\<rparr>,
      containerBoundingRect := \<lparr>box_top = 0, box_left = 0, box_width = 300, box_height = 100\<rparr>,
      axis := \<lparr>axis_x = True, axis_y = False\<rparr>,
      minTranslate := \<lparr>ovec_x = Some (- 50), ovec_y = None\<rparr>,
      maxTranslate := \<lparr>ovec_x = Some 250, ovec_y = None\<rparr>,
      translate := \<lparr>vec_x = 50, vec_y = 0\<rparr>,
      helper := Some (Some (Translate3d 50 0)), sortableGhost := Some 0,
      listenerNode := True, listening := True, touched := True\<rparr>"

text \<open>
  A grid of two columns and two rows in a container of 200 by 200.  In
  \<open>grid_pressed\<close> the last item (index 3) has just been pressed; in \<open>grid_drag_up\<close>
  it has been dragged one row up; in \<open>grid_drag_down\<close> the first item has been
  dragged onto the last cell, and in \<open>corner_drag\<close> 20 pixels further each way.
\<close>

definition grid_props :: props where
  "grid_props = default_props\<lparr>props_axis := ''xy''\<rparr>"

definition grid_unpressed :: "sref list" where
  "grid_unpressed = [item 0 0 0 0, item 1 1 0 100, item 2 2 100 0, item 3 3 100 100]"

definition grid_items :: "sref list" where
  "grid_items = [item 0 0 0 0, item 1 1 0 100, item 2 2 100 0, pressed (item 3 3 100 100)]"

definition grid_items_first :: "sref list" where
  "grid_items_first = [pressed (item 0 0 0 0), item 1 1 0 100, item 2 2 100 0, item 3 3 100 100]"

definition grid_items_third :: "sref list" where
  "grid_items_third = [item 0 0 0 0, item 1 1 0 100, pressed (item 2 2 100 0), item 3 3 100 100]"

definition grid_pressed :: container where
  "grid_pressed = init_container
     \<lparr>manager_active := Some \<lparr>active_index = Some 3, active_collection = 0\<rparr>,
      manager_refs := sample_refs grid_items,
      sorting := True, isOrigin := True, index := Some 3, newIndex := Some 3,
      width := 100, height := 100,
      offsetEdge := \<lparr>edge_top = 100, edge_left = 100\<rparr>,
      initialOffset := \<lparr>vec_x = 150, vec_y = 150\<rparr>,
      containerBoundingRect := \<lparr>box_top = 0, box_left = 0, box_width = 200, box_height = 200\<rparr>,
      axis := \<lparr>axis_x = True, axis_y = True\<rparr>,
      minTranslate := \<lparr>ovec_x = Some (- 150), ovec_y = Some (- 150)\<rparr>,
      maxTranslate := \<lparr>ovec_x = Some 50, ovec_y = Some 50\<rparr>,
      helper := Some None, sortableGhost := Some 3,
      listenerNode := True, listening := True, touched := True\<rparr>"

definition grid_drag_up :: container where
  "grid_drag_up = grid_pressed
     \<lparr>translate := \<lparr>vec_x = 0, vec_y = - 100\<rparr>,
      helper := Some (Some (Translate3d 0 (- 100)))\<rparr>"

definition grid_drag_down :: container where
  "grid_drag_down = grid_pressed
     \<lparr>manager_active := Some \<lparr>active_index = Some 0, active_collection = 0\<rparr>,
      manager_refs := sample_refs grid_items_first,
      index := Some 0, newIndex := Some 0, sortableGhost := Some 0,
      offsetEdge := \<lparr>edge_top = 0, edge_left = 0\<rparr>,
      initialOffset := \<lparr>vec_x = 50, vec_y = 50\<rparr>,
      minTranslate := \<lparr>ovec_x = Some (- 50), ovec_y = Some (- 50)\<rparr>,
      maxTranslate := \<lparr>ovec_x = Some 150, ovec_y = Some 150\<rparr>,
      translate := \<lparr>vec_x = 100, vec_y = 100\<rparr>,
      helper := Some (Some (Translate3d 100 100))\<rparr>"

definition corner_drag :: container where
  "corner_drag = grid_drag_down
     \<lparr>translate := \<lparr>vec_x = 120, vec_y = 120\<rparr>,
      helper := Some (Some (Translate3d 120 120))\<rparr>"

text \<open>
  The same grid in a scrollable container only 190 pixels high, with the third item
  (index 2, bottom left) just pressed at its centre: its lower edge lies 10 pixels
  below the container's.  The horizontal axis is locked, and the pointer then moves 30
  pixels right and 7 pixels down.
\<close>

definition lock_props :: props where
  "lock_props = grid_props\<lparr>lockAxis := Some ''x''\<rparr>"

definition edge_pressed :: container where
  "edge_pressed = grid_pressed
     \<lparr>manager_active := Some \<lparr>active_index = Some 2, active_collection = 0\<rparr>,
      manager_refs := sample_refs grid_items_third,
      index := Some 2, newIndex := Some 2, sortableGhost := Some 2,
      offsetEdge := \<lparr>edge_top = 100, edge_left = 0\<rparr>,
      initialOffset := \<lparr>vec_x = 50, vec_y = 150\<rparr>,
      containerBoundingRect := \<lparr>box_top = 0, box_left = 0, box_width = 200, box_height = 190\<rparr>,
      minTranslate := \<lparr>ovec_x = Some (- 50), ovec_y = Some (- 150)\<rparr>,
      maxTranslate := \<lparr>ovec_x = Some 150, ovec_y = Some 40\<rparr>\<rparr>"

definition sample_move :: pointer_event where
  "sample_move = pointer_at 80 157"

text \<open>
  Three columns of 100 pixels in a container 350 pixels wide: three items on the first
  row and a fourth below the first.  The fourth item (index 3) has been pressed at its
  centre and dragged one row up.
\<close>

definition wide_unpressed :: "sref list" where
  "wide_unpressed = [item 0 0 0 0, item 1 1 0 100, item 2 2 0 200, item 3 3 100 0]"

definition wide_items :: "sref list" where
  "wide_items = [item 0 0 0 0, item 1 1 0 100, item 2 2 0 200, pressed (item 3 3 100 0)]"

definition wide_drag_up :: container where
  "wide_drag_up = init_container
     \<lparr>manager_active := Some \<lparr>active_index = Some 3, active_collection = 0\<rparr>,
      manager_refs := sample_refs wide_items,
      sorting := True, isOrigin := True, index := Some 3, newIndex := Some 3,
      width := 100, height := 100,
      offsetEdge := \<lparr>edge_top = 100, edge_left = 0\<rparr>,
      initialOffset := \<lparr>vec_x = 50, vec_y = 150\<rparr>,
      containerBoundingRect := \<lparr>box_top = 0, box_left = 0, box_width = 350, box_height = 200\<rparr>,
      axis := \<lparr>axis_x = True, axis_y = True\<rparr>,
      minTranslate := \<lparr>ovec_x = Some (- 50), ovec_y = Some (- 150)\<rparr>,
      maxTranslate := \<lparr>ovec_x = Some 300, ovec_y = Some 50\<rparr>,
      translate := \<lparr>vec_x = 0, vec_y = - 100\<rparr>,
      helper := Some (Some (Translate3d 0 (- 100))), sortableGhost := Some 3,
      listenerNode := True, listening := True, touched := True\<rparr>"


section \<open>Properties of the array utilities\<close>

lemma push_loop_nat:
  "a < length h \<Longrightarrow> push_loop (int n) h a = Some (h[a := (h ! a) @ replicate (Suc n) None])"
proof (induction n arbitrary: h)
  case 0
  show ?case
    by (subst push_loop.simps, subst push_loop.simps) (simp add: push_def)
next
  case (Suc n)
  have "push_loop (int (Suc n)) h a = push_loop (int n) (push h a None) a"
    by (subst push_loop.simps) simp
  also have "\<dots> = Some ((push h a None)[a := (push h a None ! a) @ replicate (Suc n) None])"
    using Suc.prems by (intro Suc.IH) (simp add: push_def)
  also have "\<dots> = Some (h[a := (h ! a) @ replicate (Suc (Suc n)) None])"
    using Suc.prems by (simp add: push_def replicate_app_Cons_same)
  finally show ?case .
qed

lemma splice_list_remove:
  assumes "0 \<le> p" "p < int (length xs)"
  shows "splice_list xs p 1 [] = ([xs ! nat p], take (nat p) xs @ drop (Suc (nat p)) xs)"
proof -
  have "min p (int (length xs)) = p" "min 1 (int (length xs) - p) = 1" using assms by simp_all
  moreover have "take (Suc 0) (drop (nat p) xs) = [xs ! nat p]"
    using assms by (simp add: take_Suc_conv_app_nth)
  ultimately show ?thesis using assms by (simp add: splice_list_def Let_def)
qed

lemma splice_list_insert:
  assumes "0 \<le> n"
  shows "splice_list ys n 0 [v] = ([], take (nat n) ys @ [v] @ drop (nat n) ys)"
proof (cases "n \<le> int (length ys)")
  case True
  then have "min n (int (length ys)) = n" by simp
  then show ?thesis using assms by (simp add: splice_list_def Let_def)
next
  case False
  then have "min n (int (length ys)) = int (length ys)" by simp
  then show ?thesis using assms False by (simp add: splice_list_def Let_def)
qed

lemma arrayMove_result:
  assumes "arr < length h" "0 \<le> p" "p < int (length (h ! arr))"
  shows "arrayMove h arr p n = Some (length h, h @
           [let xs = h ! arr;
                padded = (if n \<ge> int (length xs)
                          then xs @ replicate (Suc (nat (n - int (length xs)))) None else xs);
                rest = take (nat p) padded @ drop (Suc (nat p)) padded
            in snd (splice_list rest n 0 [xs ! nat p])])"
proof -
  define xs where "xs = h ! arr"
  define padded where
    "padded = (if n \<ge> int (length xs)
               then xs @ replicate (Suc (nat (n - int (length xs)))) None else xs)"
  have s0: "slice0 h arr = (length h, h @ [xs])" by (simp add: slice0_def xs_def)
  have pad: "(if n \<ge> int (length ((h @ [xs]) ! length h))
              then push_loop (n - int (length ((h @ [xs]) ! length h))) (h @ [xs]) (length h)
              else Some (h @ [xs])) = Some (h @ [padded])"
  proof (cases "n \<ge> int (length xs)")
    case True
    define k where "k = nat (n - int (length xs))"
    have k: "n - int (length xs) = int k" using True by (simp add: k_def)
    have "push_loop (n - int (length xs)) (h @ [xs]) (length h)
            = Some (h @ [xs @ replicate (Suc k) None])"
      unfolding k by (subst push_loop_nat) simp_all
    then show ?thesis using True by (simp add: padded_def k_def)
  next
    case False
    then show ?thesis by (simp add: padded_def)
  qed
  have plen: "p < int (length padded)" using assms by (auto simp add: padded_def xs_def)
  have pn: "nat p < length xs" using assms by (simp add: xs_def)
  have pnth: "padded ! nat p = xs ! nat p" using pn by (simp add: padded_def nth_append)
  have sp1: "splice (h @ [padded]) (length h) p 1 [] =
      ([xs ! nat p], h @ [take (nat p) padded @ drop (Suc (nat p)) padded])"
    using splice_list_remove[OF assms(2) plen] by (simp add: splice_def pnth)
  have sp2: "splice (h @ [ys]) (length h) n 0 [v]
               = (fst (splice_list ys n 0 [v]), h @ [snd (splice_list ys n 0 [v])])" for ys v
    by (simp add: splice_def split: prod.splits)
  show ?thesis
    unfolding arrayMove_def s0 prod.case Let_def pad option.case sp1 sp2
    by (simp add: first_elem_def padded_def xs_def)
qed

text \<open>
  C10.  For an array \<open>arr\<close> on the heap and \<open>0 \<le> previousIndex < arr.length\<close>,
  \<open>arrayMove\<close> returns, for every integer \<open>newIndex\<close>, a newly allocated array and
  leaves every array that existed before (so \<open>arr\<close> too) as it was.  When
  \<open>0 \<le> newIndex < arr.length\<close> the result has the length and the elements of \<open>arr\<close>,
  holds the element formerly at \<open>previousIndex\<close> at \<open>newIndex\<close>, and without that
  position equals \<open>arr\<close> without position \<open>previousIndex\<close>.  When
  \<open>newIndex \<ge> arr.length\<close> the remaining elements are followed by \<open>undefined\<close>
  entries up to \<open>newIndex\<close>, where the moved element is put.
\<close>

theorem arrayMove_moves:
  assumes "arr < length h" "0 \<le> p" "p < int (length (h ! arr))"
  shows "\<exists>res. arrayMove h arr p n = Some (length h, h @ [res]) \<and>
     (0 \<le> n \<and> n < int (length (h ! arr)) \<longrightarrow>
        length res = length (h ! arr) \<and> mset res = mset (h ! arr) \<and>
        res ! nat n = (h ! arr) ! nat p \<and>
        take (nat n) res @ drop (Suc (nat n)) res
          = take (nat p) (h ! arr) @ drop (Suc (nat p)) (h ! arr)) \<and>
     (n \<ge> int (length (h ! arr)) \<longrightarrow>
        res = take (nat p) (h ! arr) @ drop (Suc (nat p)) (h ! arr)
              @ replicate (nat n - length (h ! arr) + 1) None @ [(h ! arr) ! nat p])"
proof -
  define xs where "xs = h ! arr"
  define rest where "rest = take (nat p) xs @ drop (Suc (nat p)) xs"
  have pn: "nat p < length xs" using assms by (simp add: xs_def)
  have lrest: "length rest = length xs - 1" using pn by (simp add: rest_def)
  have xsplit: "xs = take (nat p) xs @ (xs ! nat p) # drop (Suc (nat p)) xs"
    using pn by (simp add: id_take_nth_drop[symmetric])
  have mrest: "mset xs = add_mset (xs ! nat p) (mset rest)"
    by (subst xsplit) (simp add: rest_def)
  note am0 = arrayMove_result[OF assms, of n, unfolded Let_def, folded xs_def]
  consider (neg) "n < 0" | (inside) "0 \<le> n" "n < int (length xs)" | (beyond) "n \<ge> int (length xs)"
    by linarith
  then show ?thesis
  proof cases
    case neg
    then have "\<not> n \<ge> int (length xs)" by simp
    then show ?thesis using am0 neg by (auto simp add: xs_def)
  next
    case inside
    define res where "res = take (nat n) rest @ [xs ! nat p] @ drop (nat n) rest"
    have nn: "nat n \<le> length rest" using inside pn lrest by simp
    have pad: "(if n \<ge> int (length xs) then xs @ replicate (Suc (nat (n - int (length xs)))) None else xs) = xs"
      using inside by simp
    have am: "arrayMove h arr p n = Some (length h, h @ [res])"
      using am0 unfolding pad rest_def[symmetric]
      by (simp add: splice_list_insert[OF inside(1)] res_def)
    have "length res = length xs" using nn lrest pn by (simp add: res_def)
    moreover have "mset res = mset xs"
      unfolding mrest res_def using nn
      by (metis append_take_drop_id mset_append mset.simps(2) union_mset_add_mset_left
          union_mset_add_mset_right append_Cons append_Nil)
    moreover have "res ! nat n = xs ! nat p" using nn by (simp add: res_def nth_append)
    moreover have "take (nat n) res @ drop (Suc (nat n)) res = rest"
      using nn by (simp add: res_def)
    ultimately show ?thesis using am inside
      by (intro exI[of _ res]) (simp add: xs_def[symmetric] rest_def)
  next
    case beyond
    define res where "res = rest @ replicate (nat n - length xs + 1) None @ [xs ! nat p]"
    have n0: "0 \<le> n" using beyond by simp
    have nl: "length xs \<le> nat n" using beyond by simp
    define k where "k = nat n - length xs + 1"
    have kk: "Suc (nat (n - int (length xs))) = k" using beyond by (simp add: k_def nat_diff_distrib')
    have pad: "(if n \<ge> int (length xs) then xs @ replicate (Suc (nat (n - int (length xs)))) None else xs)
                 = xs @ replicate k None"
      using beyond kk by simp
    have r1: "take (nat p) (xs @ replicate k None) @ drop (Suc (nat p)) (xs @ replicate k None)
                = rest @ replicate k None"
      using pn by (simp add: rest_def)
    have r2: "take (nat n) (rest @ replicate k None) @ [xs ! nat p] @ drop (nat n) (rest @ replicate k None)
                = res"
      using nl pn lrest by (simp add: res_def k_def)
    have am: "arrayMove h arr p n = Some (length h, h @ [res])"
      using am0 unfolding pad r1
      by (simp add: splice_list_insert[OF n0] r2[simplified])
    show ?thesis using am beyond
      by (intro exI[of _ res]) (simp add: xs_def[symmetric] rest_def res_def)
  qed
qed

theorem arrayMove_moves_witness:
  "(0::nat) < length [[Some (1::nat), Some 2, Some 3]]
   \<and> (\<exists>res. arrayMove [[Some (1::nat), Some 2, Some 3]] 0 0 2
            = Some (1, [[Some 1, Some 2, Some 3]] @ [res])
         \<and> length res = 3 \<and> res ! 2 = Some 1 \<and> mset res = mset [Some 1, Some 2, Some 3])"
  using arrayMove_moves [of 0 "[[Some (1::nat), Some 2, Some 3]]" 0 2] by auto


section \<open>The reflow loop, entry by entry\<close>

lemma cacheEdge_idem: "cacheEdge (cacheEdge r) = cacheEdge r"
  by (simp add: cacheEdge_def)

lemma cacheEdge_fields:
  "sortable_index (cacheEdge r) = sortable_index r"
  "offsetHeight (cacheEdge r) = offsetHeight r"
  "offsetWidth (cacheEdge r) = offsetWidth r"
  "sortable_translate (cacheEdge r) = sortable_translate r"
  "node_id (cacheEdge r) = node_id r"
  "halfWidth s (cacheEdge r) = halfWidth s r"
  "halfHeight s (cacheEdge r) = halfHeight s r"
  by (simp_all add: cacheEdge_def halfWidth_def halfHeight_def)

lemma finalRef_edge: "edgeOffset (finalRef p s N j) = edgeOffset (N ! j)"
  by (simp add: finalRef_def Let_def split: sum.splits prod.splits)

lemma animateNode_char:
  assumes inv: "loopInv p s N i nodes" and i: "i < length N"
  shows "animateNode p s i (nodes, k, g) =
     (let nodes2 = (if i < length N - 1 then nodes[i + 1 := N ! (i + 1)] else nodes)
      in if isDragged s (N ! i)
         then Inr (nodes2[i := finalRef p s N i], k,
                   if hideSortableGhost p then Some (node_id (N ! i)) else g)
         else case decision p s N i of
                Inl e \<Rightarrow> Inl e
              | Inr (tr, m) \<Rightarrow>
                  Inr (nodes2[i := finalRef p s N i],
                       setNewIndex m (sortable_index (N ! i)) k, g))"
proof -
  define nodes1 where "nodes1 = nodes[i := cacheEdge (nodes ! i)]"
  define nodes2 where
    "nodes2 = (if i < length nodes - 1 then nodes1[i + 1 := cacheEdge (nodes1 ! (i + 1))] else nodes1)"
  define base where "base = (if i < length N - 1 then nodes[i + 1 := N ! (i + 1)] else nodes)"
  have len: "length nodes = length N" using inv by (simp add: loopInv_def)
  have ci: "cacheEdge (nodes ! i) = N ! i" using inv i by (simp add: loopInv_def)
  have idx: "sortable_index (nodes ! i) = sortable_index (N ! i)"
    and hh: "offsetHeight (nodes ! i) = offsetHeight (N ! i)"
    and hw: "halfWidth s (nodes ! i) = halfWidth s (N ! i)"
    and hhh: "halfHeight s (nodes ! i) = halfHeight s (N ! i)"
    and nid: "node_id (nodes ! i) = node_id (N ! i)"
    by (simp_all add: ci[symmetric] cacheEdge_fields)
  have eq: "animateNode p s i (nodes, k, g) =
     (if Some (sortable_index (nodes ! i)) = index s then
        (if hideSortableGhost p
         then Inr (nodes2[i := (nodes2 ! i)\<lparr>style_hidden := True\<rparr>], k, Some (node_id (nodes ! i)))
         else Inr (nodes2, k, g))
      else
        bindE (nodeTranslate p s (sortable_index (nodes ! i)) (offsetHeight (nodes ! i))
                 (halfWidth s (nodes ! i)) (halfHeight s (nodes ! i)) (edgeOffset (nodes1 ! i))
                 (if i < length nodes - 1 then edgeOffset (nodes2 ! (i + 1)) else None)
                 (if i > 0 then edgeOffset (nodes2 ! (i - 1)) else None)
                 (sortable_translate (nodes2 ! i))) (\<lambda>(tr, m).
          Inr (nodes2[i := (nodes2 ! i)\<lparr>sortable_translate := Some tr\<rparr>],
               setNewIndex m (sortable_index (nodes ! i)) k, g)))"
    unfolding animateNode_def Let_def prod.case nodes1_def nodes2_def ..
  have n1: "nodes1 = nodes[i := N ! i]" by (simp add: nodes1_def ci)
  have n1i: "nodes1 ! i = N ! i" using i len by (simp add: n1)
  have n2: "nodes2 = base[i := N ! i]"
  proof (cases "i < length N - 1")
    case True
    then have "cacheEdge (nodes ! (i + 1)) = N ! (i + 1)" using inv by (simp add: loopInv_def)
    then show ?thesis using True len
      by (simp add: nodes2_def base_def n1 list_update_swap[of i "Suc i"])
  next
    case False
    then show ?thesis using len by (simp add: nodes2_def base_def n1)
  qed
  have blen: "length base = length N" using len by (simp add: base_def)
  have n2i: "nodes2 ! i = N ! i" using i blen by (simp add: n2)
  have upd: "nodes2[i := r] = base[i := r]" for r by (simp add: n2)
  have nextE: "(if i < length nodes - 1 then edgeOffset (nodes2 ! (i + 1)) else None)
                = (if i < length N - 1 then edgeOffset (N ! (i + 1)) else None)"
  proof (cases "i < length N - 1")
    case True
    then have "nodes2 ! (i + 1) = N ! (i + 1)" using len by (simp add: n2 base_def)
    then show ?thesis using True len by simp
  next
    case False
    then show ?thesis using len by simp
  qed
  have prevE: "(if i > 0 then edgeOffset (nodes2 ! (i - 1)) else None)
                = (if i > 0 then edgeOffset (N ! (i - 1)) else None)"
  proof (cases "i > 0")
    case True
    then have "nodes2 ! (i - 1) = nodes ! (i - 1)" by (simp add: n2 base_def)
    moreover have "nodes ! (i - 1) = finalRef p s N (i - 1)"
      using inv i True by (simp add: loopInv_def)
    ultimately show ?thesis by (simp add: finalRef_edge)
  next
    case False
    then show ?thesis by simp
  qed
  have dec: "nodeTranslate p s (sortable_index (nodes ! i)) (offsetHeight (nodes ! i))
                 (halfWidth s (nodes ! i)) (halfHeight s (nodes ! i)) (edgeOffset (nodes1 ! i))
                 (if i < length nodes - 1 then edgeOffset (nodes2 ! (i + 1)) else None)
                 (if i > 0 then edgeOffset (nodes2 ! (i - 1)) else None)
                 (sortable_translate (nodes2 ! i)) = decision p s N i"
    unfolding nextE prevE idx hh hw hhh n1i n2i decision_def Let_def ..
  show ?thesis
  proof (cases "isDragged s (N ! i)")
    case True
    then show ?thesis
      unfolding eq unfolding idx nid n2i upd Let_def base_def[symmetric]
      by (simp add: isDragged_def finalRef_def n2 Let_def)
  next
    case False
    show ?thesis
    proof (cases "decision p s N i")
      case (Inl e)
      then show ?thesis using False
        unfolding eq unfolding dec unfolding idx nid n2i upd Let_def base_def[symmetric]
        by (simp add: isDragged_def bindE_def)
    next
      case (Inr v)
      obtain tr m where v: "v = (tr, m)" by (cases v)
      show ?thesis using False Inr
        unfolding eq unfolding dec unfolding idx nid n2i upd Let_def base_def[symmetric] v
        by (simp add: isDragged_def bindE_def finalRef_def Let_def)
    qed
  qed
qed


lemma loopInv_init:
  "loopInv p s (map cacheEdge nodes) 0 nodes"
  by (simp add: loopInv_def)

lemma loopInv_step:
  assumes inv: "loopInv p s N i nodes" and i: "i < length N"
    and cached: "\<forall>j < length N. cacheEdge (N ! j) = N ! j"
  shows "loopInv p s N (Suc i)
           ((if i < length N - 1 then nodes[i + 1 := N ! (i + 1)] else nodes)[i := finalRef p s N i])"
proof -
  have len: "length nodes = length N" using inv by (simp add: loopInv_def)
  show ?thesis
    unfolding loopInv_def
  proof (intro conjI allI impI)
    show "length ((if i < length N - 1 then nodes[i + 1 := N ! (i + 1)] else nodes)[i := finalRef p s N i])
            = length N"
      using len by simp
  next
    fix j assume j: "j < length N" and ji: "j < Suc i"
    show "(if i < length N - 1 then nodes[i + 1 := N ! (i + 1)] else nodes)[i := finalRef p s N i] ! j
            = finalRef p s N j"
    proof (cases "j = i")
      case True
      then show ?thesis using i len by simp
    next
      case False
      then have "j < i" using ji by simp
      then have "nodes ! j = finalRef p s N j" using inv j by (simp add: loopInv_def)
      then show ?thesis using False \<open>j < i\<close> by simp
    qed
  next
    fix j assume j: "j < length N" and ji: "Suc i \<le> j"
    show "cacheEdge ((if i < length N - 1 then nodes[i + 1 := N ! (i + 1)] else nodes)
                       [i := finalRef p s N i] ! j) = N ! j"
    proof (cases "j = Suc i")
      case True
      then have "i < length N - 1" using j by simp
      then show ?thesis using True j len cached by simp
    next
      case False
      then have "cacheEdge (nodes ! j) = N ! j" using inv j ji by (simp add: loopInv_def)
      then show ?thesis using False ji by simp
    qed
  qed
qed

lemma moveAt_dragged: "isDragged s (N ! i) \<Longrightarrow> moveAt p s N i = Stay"
  by (simp add: moveAt_def)

lemma moveAt_decided:
  "\<not> isDragged s (N ! i) \<Longrightarrow> decision p s N i = Inr (tr, m) \<Longrightarrow> moveAt p s N i = m"
  by (simp add: moveAt_def)

lemma animateNode_inv:
  assumes inv: "loopInv p s N i nodes" and i: "i < length N"
    and cached: "\<forall>j < length N. cacheEdge (N ! j) = N ! j"
    and step: "animateNode p s i (nodes, k, g) = Inr (nodes', k', g')"
  shows "loopInv p s N (Suc i) nodes'"
    and "k' = setNewIndex (moveAt p s N i) (sortable_index (N ! i)) k"
    and "isDragged s (N ! i) \<or> (\<exists>v. decision p s N i = Inr v)"
proof -
  note ch = animateNode_char[OF inv i, of k g, unfolded Let_def]
  note st = loopInv_step[OF inv i cached]
  show "loopInv p s N (Suc i) nodes'"
  proof (cases "isDragged s (N ! i)")
    case True
    then show ?thesis using ch step st by simp
  next
    case False
    then show ?thesis using ch step st by (cases "decision p s N i") auto
  qed
  show "k' = setNewIndex (moveAt p s N i) (sortable_index (N ! i)) k"
  proof (cases "isDragged s (N ! i)")
    case True
    then show ?thesis using ch step by (simp add: moveAt_dragged setNewIndex_def)
  next
    case False
    then show ?thesis using ch step
      by (cases "decision p s N i") (auto simp add: moveAt_decided)
  qed
  show "isDragged s (N ! i) \<or> (\<exists>v. decision p s N i = Inr v)"
    using ch step by (cases "decision p s N i") (auto split: if_splits)
qed

lemma animateNode_total:
  assumes inv: "loopInv p s N i nodes" and i: "i < length N"
    and ok: "isDragged s (N ! i) \<or> (\<exists>v. decision p s N i = Inr v)"
  shows "\<exists>st'. animateNode p s i (nodes, k, g) = Inr st'"
  using animateNode_char[OF inv i, of k g, unfolded Let_def] ok
  by (cases "isDragged s (N ! i)") auto

lemma animateLoop_char:
  assumes cached: "\<forall>j < length N. cacheEdge (N ! j) = N ! j"
  shows "loopInv p s N i nodes \<Longrightarrow> i \<le> length N \<Longrightarrow>
         animateLoop p s (length N) i (nodes, k, g) = Inr (nodes', k', g') \<Longrightarrow>
         loopInv p s N (length N) nodes' \<and> k' = foldIndex p s N k [i..<length N]
         \<and> (\<forall>j. i \<le> j \<and> j < length N \<longrightarrow>
                isDragged s (N ! j) \<or> (\<exists>v. decision p s N j = Inr v))"
proof (induction "length N - i" arbitrary: i nodes k g)
  case 0
  then have "i = length N" by simp
  then show ?case using 0 by (subst (asm) animateLoop.simps) (auto simp add: foldIndex_def)
next
  case (Suc n)
  then have i: "i < length N" by simp
  obtain st1 where st1: "animateNode p s i (nodes, k, g) = Inr st1"
    using Suc.prems(3) i by (subst (asm) animateLoop.simps) (simp split: sum.splits)
  obtain n1 k1 g1 where st1': "st1 = (n1, k1, g1)" by (cases st1)
  have rest: "animateLoop p s (length N) (Suc i) (n1, k1, g1) = Inr (nodes', k', g')"
    using Suc.prems(3) i st1 st1' by (subst (asm) animateLoop.simps) simp
  note step = animateNode_inv[OF Suc.prems(1) i cached st1[unfolded st1']]
  have "n = length N - Suc i" using Suc.hyps(2) by simp
  from Suc.hyps(1)[OF this step(1) _ rest] i
  have IH: "loopInv p s N (length N) nodes'" "k' = foldIndex p s N k1 [Suc i..<length N]"
    "\<forall>j. Suc i \<le> j \<and> j < length N \<longrightarrow> isDragged s (N ! j) \<or> (\<exists>v. decision p s N j = Inr v)"
    by simp_all
  have "k' = foldIndex p s N k [i..<length N]"
    using IH(2) step(2) i by (simp add: foldIndex_def upt_conv_Cons)
  moreover have "\<forall>j. i \<le> j \<and> j < length N \<longrightarrow> isDragged s (N ! j) \<or> (\<exists>v. decision p s N j = Inr v)"
  proof (intro allI impI)
    fix j assume "i \<le> j \<and> j < length N"
    then show "isDragged s (N ! j) \<or> (\<exists>v. decision p s N j = Inr v)"
      using IH(3) step(3) by (cases "j = i") auto
  qed
  ultimately show ?case using IH(1) by simp
qed

lemma animateLoop_total:
  shows "loopInv p s N i nodes \<Longrightarrow> i \<le> length N \<Longrightarrow>
         \<forall>j < length N. cacheEdge (N ! j) = N ! j \<Longrightarrow>
         \<forall>j. i \<le> j \<and> j < length N \<longrightarrow> isDragged s (N ! j) \<or> (\<exists>v. decision p s N j = Inr v) \<Longrightarrow>
         \<exists>st'. animateLoop p s (length N) i (nodes, k, g) = Inr st'"
proof (induction "length N - i" arbitrary: i nodes k g)
  case 0
  then show ?case by (subst animateLoop.simps) simp
next
  case (Suc n)
  then have i: "i < length N" by simp
  have ok: "isDragged s (N ! i) \<or> (\<exists>v. decision p s N i = Inr v)" using Suc.prems(4) i by simp
  obtain st1 where st1: "animateNode p s i (nodes, k, g) = Inr st1"
    using animateNode_total[OF Suc.prems(1) i ok] by blast
  obtain n1 k1 g1 where st1': "st1 = (n1, k1, g1)" by (cases st1)
  note step = animateNode_inv[OF Suc.prems(1) i Suc.prems(3) st1[unfolded st1']]
  have "n = length N - Suc i" using Suc.hyps(2) by simp
  have "\<exists>st'. animateLoop p s (length N) (Suc i) (n1, k1, g1) = Inr st'"
    using Suc.hyps(1)[OF \<open>n = length N - Suc i\<close> step(1) _ Suc.prems(3), of k1 g1] Suc.prems(4) i
    by simp
  then obtain st' where "animateLoop p s (length N) (Suc i) (n1, k1, g1) = Inr st'" by blast
  moreover have "animateLoop p s (length N) i (nodes, k, g)
                   = animateLoop p s (length N) (Suc i) (n1, k1, g1)"
    using i st1 st1' by (subst animateLoop.simps) simp
  ultimately show ?case by (intro exI[of _ st']) simp
qed

lemma loopInv_final:
  "loopInv p s N (length N) nodes' \<Longrightarrow> nodes' = map (finalRef p s N) [0..<length N]"
  by (auto simp add: loopInv_def intro: nth_equalityI)



section \<open>The sample sessions are reached by press and move\<close>

lemma vertical_drag_reached:
  "map_sum id observe
     (bindE (handlePress default_props (sample_geometry 0 0 100 300)
               (started vertical_unpressed 0) (pointer_at 50 50) False (Some 0))
        (\<lambda>s. updatePosition default_props s (pointer_at 50 60)))
   = Inr (observe vertical_drag)"
  by code_simp

lemma horizontal_drag_reached:
  "map_sum id observe
     (bindE (handlePress horizontal_props (sample_geometry 0 0 300 100)
               (started horizontal_unpressed 0) (pointer_at 50 50) False (Some 0))
        (\<lambda>s. updatePosition horizontal_props s (pointer_at 100 50)))
   = Inr (observe horizontal_drag)"
  by code_simp

lemma grid_pressed_reached:
  "map_sum id observe
     (handlePress grid_props (sample_geometry 100 100 200 200)
        (started grid_unpressed 3) (pointer_at 150 150) False (Some 3))
   = Inr (observe grid_pressed)"
  by code_simp

lemma grid_drag_up_reached:
  "map_sum id observe
     (bindE (handlePress grid_props (sample_geometry 100 100 200 200)
               (started grid_unpressed 3) (pointer_at 150 150) False (Some 3))
        (\<lambda>s. updatePosition grid_props s (pointer_at 150 50)))
   = Inr (observe grid_drag_up)"
  by code_simp

lemma grid_drag_down_reached:
  "map_sum id observe
     (bindE (handlePress grid_props (sample_geometry 0 0 200 200)
               (started grid_unpressed 0) (pointer_at 50 50) False (Some 0))
        (\<lambda>s. updatePosition grid_props s (pointer_at 150 150)))
   = Inr (observe grid_drag_down)"
  by code_simp

lemma corner_drag_reached:
  "map_sum id observe
     (bindE (handlePress grid_props (sample_geometry 0 0 200 200)
               (started grid_unpressed 0) (pointer_at 50 50) False (Some 0))
        (\<lambda>s. updatePosition grid_props s (pointer_at 170 170)))
   = Inr (observe corner_drag)"
  by code_simp

lemma edge_pressed_reached:
  "map_sum id observe
     (handlePress lock_props (sample_geometry 100 0 200 190)
        (started grid_unpressed 2) (pointer_at 50 150) False (Some 2))
   = Inr (observe edge_pressed)"
  by code_simp

lemma wide_drag_up_reached:
  "map_sum id observe
     (bindE (handlePress grid_props (sample_geometry 100 0 350 200)
               (started wide_unpressed 3) (pointer_at 50 150) False (Some 3))
        (\<lambda>s. updatePosition grid_props s (pointer_at 50 50)))
   = Inr (observe wide_drag_up)"
  by code_simp

section \<open>The tentative new index\<close>

lemma getOrderedRefs_sorted:
  "getOrderedRefs s = Inr nodes \<Longrightarrow> sorted (map sortable_index nodes)"
  by (auto simp add: getOrderedRefs_def bindE_def need_def split: option.splits)

lemma tentativeReflow_char:
  assumes ord: "getOrderedRefs s = Inr nodes"
    and refl: "tentativeReflow p s = Inr (nodes', tentative, ghost)"
  shows "nodes' = map (finalRef p s (map cacheEdge nodes)) [0..<length nodes]"
    and "tentative = (case foldIndex p s (map cacheEdge nodes) None [0..<length nodes] of
                        None \<Rightarrow> index s | Some k \<Rightarrow> Some k)"
    and "\<forall>j < length nodes. isDragged s (map cacheEdge nodes ! j)
                             \<or> (\<exists>v. decision p s (map cacheEdge nodes) j = Inr v)"
proof -
  define N where "N = map cacheEdge nodes"
  have lenN: "length N = length nodes" by (simp add: N_def)
  obtain n1 k1 g1 where loop: "animateLoop p s (length N) 0 (nodes, None, sortableGhost s) = Inr (n1, k1, g1)"
    and res: "nodes' = n1" "tentative = (if k1 = None then index s else k1)"
    using refl ord by (auto simp add: tentativeReflow_def bindE_def lenN split: sum.splits)
  have cached: "\<forall>j < length N. cacheEdge (N ! j) = N ! j" by (simp add: N_def cacheEdge_idem)
  have inv0: "loopInv p s N 0 nodes" unfolding N_def by (rule loopInv_init)
  from animateLoop_char[OF cached inv0 _ loop]
  have ch: "loopInv p s N (length N) n1" "k1 = foldIndex p s N None [0..<length N]"
    "\<forall>j. 0 \<le> j \<and> j < length N \<longrightarrow> isDragged s (N ! j) \<or> (\<exists>v. decision p s N j = Inr v)"
    by simp_all
  show "nodes' = map (finalRef p s (map cacheEdge nodes)) [0..<length nodes]"
    using loopInv_final[OF ch(1)] res(1) by (simp add: N_def)
  show "tentative = (case foldIndex p s (map cacheEdge nodes) None [0..<length nodes] of
                        None \<Rightarrow> index s | Some k \<Rightarrow> Some k)"
    using res(2) ch(2) by (simp add: N_def split: option.splits)
  show "\<forall>j < length nodes. isDragged s (map cacheEdge nodes ! j)
                             \<or> (\<exists>v. decision p s (map cacheEdge nodes) j = Inr v)"
    using ch(3) by (simp add: N_def)
qed

text \<open>The fold of the index assignments.\<close>

lemma foldIndex_snoc:
  "foldIndex p s N k (js @ [j]) = setNewIndex (moveAt p s N j) (sortable_index (N ! j)) (foldIndex p s N k js)"
  by (simp add: foldIndex_def)

lemma foldIndex_all_stay:
  "\<forall>j \<in> set js. moveAt p s N j = Stay \<Longrightarrow> foldIndex p s N k js = k"
  by (induction js rule: rev_induct) (simp_all add: foldIndex_def setNewIndex_def)

lemma foldIndex_back:
  "\<exists>j \<in> set js. moveAt p s N j = Back \<Longrightarrow>
   \<exists>a < length js. moveAt p s N (js ! a) = Back
       \<and> (\<forall>b. a < b \<and> b < length js \<longrightarrow> moveAt p s N (js ! b) \<noteq> Back)
       \<and> foldIndex p s N k js = Some (sortable_index (N ! (js ! a)))"
proof (induction js rule: rev_induct)
  case Nil
  then show ?case by simp
next
  case (snoc j js)
  show ?case
  proof (cases "moveAt p s N j = Back")
    case True
    then show ?thesis
      by (intro exI[of _ "length js"]) (auto simp add: foldIndex_snoc setNewIndex_def)
  next
    case False
    then have "\<exists>j \<in> set js. moveAt p s N j = Back" using snoc.prems by auto
    from snoc.IH[OF this] obtain a where a: "a < length js" "moveAt p s N (js ! a) = Back"
      "\<forall>b. a < b \<and> b < length js \<longrightarrow> moveAt p s N (js ! b) \<noteq> Back"
      "foldIndex p s N k js = Some (sortable_index (N ! (js ! a)))" by blast
    have "foldIndex p s N k (js @ [j]) = Some (sortable_index (N ! (js ! a)))"
      using False a(4) by (cases "moveAt p s N j") (simp_all add: foldIndex_snoc setNewIndex_def)
    moreover have "\<forall>b. a < b \<and> b < length (js @ [j]) \<longrightarrow> moveAt p s N ((js @ [j]) ! b) \<noteq> Back"
      using a(3) False by (auto simp add: nth_append)
    ultimately show ?thesis using a(1,2)
      by (intro exI[of _ a]) (simp add: nth_append)
  qed
qed

lemma foldIndex_forward:
  "\<forall>j \<in> set js. moveAt p s N j \<noteq> Back \<Longrightarrow> \<exists>j \<in> set js. moveAt p s N j = Forward \<Longrightarrow>
   \<exists>a < length js. moveAt p s N (js ! a) = Forward
       \<and> (\<forall>b < a. moveAt p s N (js ! b) = Stay)
       \<and> foldIndex p s N None js = Some (sortable_index (N ! (js ! a)))"
proof (induction js rule: rev_induct)
  case Nil
  then show ?case by simp
next
  case (snoc j js)
  have nb: "\<forall>j \<in> set js. moveAt p s N j \<noteq> Back" "moveAt p s N j \<noteq> Back" using snoc.prems(1) by auto
  show ?case
  proof (cases "\<exists>j \<in> set js. moveAt p s N j = Forward")
    case True
    from snoc.IH[OF nb(1) True] obtain a where a: "a < length js" "moveAt p s N (js ! a) = Forward"
      "\<forall>b < a. moveAt p s N (js ! b) = Stay"
      "foldIndex p s N None js = Some (sortable_index (N ! (js ! a)))" by blast
    have "foldIndex p s N None (js @ [j]) = Some (sortable_index (N ! (js ! a)))"
      using nb(2) a(4) by (cases "moveAt p s N j") (simp_all add: foldIndex_snoc setNewIndex_def)
    moreover have "\<forall>b < a. moveAt p s N ((js @ [j]) ! b) = Stay"
      using a(1,3) by (simp add: nth_append)
    ultimately show ?thesis using a(1,2)
      by (intro exI[of _ a]) (simp add: nth_append)
  next
    case False
    then have stay: "\<forall>j \<in> set js. moveAt p s N j = Stay"
      using nb(1) by (metis move.exhaust)
    have fw: "moveAt p s N j = Forward" using snoc.prems(2) False by auto
    have "foldIndex p s N None (js @ [j]) = Some (sortable_index (N ! j))"
      using foldIndex_all_stay[OF stay, of None] fw by (simp add: foldIndex_snoc setNewIndex_def)
    moreover have "\<forall>b < length js. moveAt p s N ((js @ [j]) ! b) = Stay"
      using stay by (simp add: nth_append)
    ultimately show ?thesis using fw
      by (intro exI[of _ "length js"]) simp
  qed
qed


lemma gridTranslate_move:
  "gridTranslate s idx h ow oh eo ne pe = Inr (tr, m) \<Longrightarrow>
     (m = Back \<longrightarrow> index_gt idx (index s)) \<and> (m = Forward \<longrightarrow> index_lt idx (index s))"
  by (auto simp add: gridTranslate_def bindE_def need_def split: if_splits option.splits sum.splits)

lemma xTranslate_move:
  "xTranslate s idx ow eo = Inr (tr, m) \<Longrightarrow>
     (m = Back \<longrightarrow> index_gt idx (index s))
     \<and> (m = Forward \<longrightarrow> \<not> isOrigin s \<or> index_lt idx (index s))"
  by (auto simp add: xTranslate_def bindE_def need_def split: if_splits option.splits sum.splits)

lemma yTranslate_move:
  "yTranslate p s idx h eo own = Inr (tr, m) \<Longrightarrow>
     (m = Back \<longrightarrow> index_gt idx (index s))
     \<and> (m = Forward \<longrightarrow> \<not> isOrigin s \<or> index_lt idx (index s))"
  by (auto simp add: yTranslate_def bindE_def need_def Let_def
      split: if_splits option.splits sum.splits)

lemma nodeTranslate_move:
  "nodeTranslate p s idx h ow oh eo ne pe own = Inr (tr, m) \<Longrightarrow>
     (m = Back \<longrightarrow> index_gt idx (index s))
     \<and> (m = Forward \<longrightarrow> \<not> isOrigin s \<or> index_lt idx (index s))"
  using gridTranslate_move[of s idx h ow oh eo ne pe tr m] xTranslate_move[of s idx ow eo tr m]
    yTranslate_move[of p s idx h eo own tr m]
  by (auto simp add: nodeTranslate_def split: if_splits)

lemma moveAt_side:
  "(moveAt p s N j = Back \<longrightarrow> index_gt (sortable_index (N ! j)) (index s))
   \<and> (moveAt p s N j = Forward \<longrightarrow> \<not> isOrigin s \<or> index_lt (sortable_index (N ! j)) (index s))"
proof (cases "isDragged s (N ! j)")
  case True
  then show ?thesis by (simp add: moveAt_def)
next
  case False
  show ?thesis
  proof (cases "decision p s N j")
    case (Inl e)
    then show ?thesis using False by (simp add: moveAt_def)
  next
    case (Inr v)
    obtain tr m where v: "v = (tr, m)" by (cases v)
    have "moveAt p s N j = m" using False Inr v by (simp add: moveAt_def)
    then show ?thesis
      using nodeTranslate_move[OF Inr[unfolded decision_def Let_def v]] by simp
  qed
qed

text \<open>
  The tentative index in terms of the assignments the loop makes: none, the last
  assignment of a pushed-back entry, or the first assignment of a pushed-forward one.
\<close>

lemma newIndex_by_moves:
  assumes ord: "getOrderedRefs s = Inr nodes"
    and refl: "tentativeReflow p s = Inr (nodes', tentative, ghost)"
  shows "(let N = map cacheEdge nodes; n = length nodes in
     ((\<forall>j < n. moveAt p s N j = Stay) \<longrightarrow> tentative = index s)
   \<and> ((\<exists>j < n. moveAt p s N j = Back) \<longrightarrow>
        (\<exists>a < n. moveAt p s N a = Back \<and> tentative = Some (sortable_index (nodes ! a))
            \<and> (\<forall>b < n. moveAt p s N b = Back \<longrightarrow> b \<le> a
                  \<and> sortable_index (nodes ! b) \<le> sortable_index (nodes ! a))))
   \<and> ((\<forall>j < n. moveAt p s N j \<noteq> Back) \<and> (\<exists>j < n. moveAt p s N j = Forward) \<longrightarrow>
        (\<exists>a < n. moveAt p s N a = Forward \<and> tentative = Some (sortable_index (nodes ! a))
            \<and> (\<forall>b < n. moveAt p s N b = Forward \<longrightarrow> a \<le> b
                  \<and> sortable_index (nodes ! a) \<le> sortable_index (nodes ! b))))
   \<and> (\<forall>j < n. (moveAt p s N j = Back \<longrightarrow> index_gt (sortable_index (nodes ! j)) (index s))
              \<and> (moveAt p s N j = Forward \<longrightarrow>
                   \<not> isOrigin s \<or> index_lt (sortable_index (nodes ! j)) (index s)))
   \<and> (\<forall>s'. animateNodes p s = Inr s' \<and> isDropAllowed p s tentative = Inr True \<longrightarrow>
          newIndex s' = tentative))"
proof -
  define N where "N = map cacheEdge nodes"
  define n where "n = length nodes"
  have c5: "\<forall>s'. animateNodes p s = Inr s' \<and> isDropAllowed p s tentative = Inr True \<longrightarrow>
          newIndex s' = tentative"
    using refl by (auto simp add: animateNodes_def bindE_def need_def split: option.splits)
  have srt: "sorted (map sortable_index nodes)" using getOrderedRefs_sorted[OF ord] .
  have mono: "sortable_index (nodes ! a) \<le> sortable_index (nodes ! b)" if "a \<le> b" "b < n" for a b
    using sorted_nth_mono[OF srt, of a b] that by (simp add: n_def)
  have idxN: "sortable_index (N ! j) = sortable_index (nodes ! j)" if "j < n" for j
    using that by (simp add: N_def n_def cacheEdge_fields)
  have tent: "tentative = (case foldIndex p s N None [0..<n] of None \<Rightarrow> index s | Some k \<Rightarrow> Some k)"
    using tentativeReflow_char(2)[OF ord refl] by (simp add: N_def n_def)
  have c1: "tentative = index s" if "\<forall>j < n. moveAt p s N j = Stay"
  proof -
    have "foldIndex p s N None [0..<n] = None"
      using that by (intro foldIndex_all_stay) simp
    then show ?thesis using tent by simp
  qed
  have c2: "\<exists>a < n. moveAt p s N a = Back \<and> tentative = Some (sortable_index (nodes ! a))
            \<and> (\<forall>b < n. moveAt p s N b = Back \<longrightarrow> b \<le> a
                  \<and> sortable_index (nodes ! b) \<le> sortable_index (nodes ! a))"
    if "\<exists>j < n. moveAt p s N j = Back"
  proof -
    have "\<exists>j \<in> set [0..<n]. moveAt p s N j = Back" using that by auto
    from foldIndex_back[OF this, of None] obtain a where a: "a < n" "moveAt p s N a = Back"
      "\<forall>b. a < b \<and> b < n \<longrightarrow> moveAt p s N b \<noteq> Back"
      "foldIndex p s N None [0..<n] = Some (sortable_index (N ! a))"
      by auto
    have "tentative = Some (sortable_index (nodes ! a))" using tent a(1,4) by (simp add: idxN)
    moreover have "\<forall>b < n. moveAt p s N b = Back \<longrightarrow> b \<le> a
                  \<and> sortable_index (nodes ! b) \<le> sortable_index (nodes ! a)"
    proof (intro allI impI)
      fix b assume b: "b < n" "moveAt p s N b = Back"
      then have "b \<le> a" using a(3) by (meson not_le_imp_less)
      then show "b \<le> a \<and> sortable_index (nodes ! b) \<le> sortable_index (nodes ! a)"
        using mono a(1) by simp
    qed
    ultimately show ?thesis using a(1,2) by blast
  qed
  have c3: "\<exists>a < n. moveAt p s N a = Forward \<and> tentative = Some (sortable_index (nodes ! a))
            \<and> (\<forall>b < n. moveAt p s N b = Forward \<longrightarrow> a \<le> b
                  \<and> sortable_index (nodes ! a) \<le> sortable_index (nodes ! b))"
    if "\<forall>j < n. moveAt p s N j \<noteq> Back" "\<exists>j < n. moveAt p s N j = Forward"
  proof -
    have "\<forall>j \<in> set [0..<n]. moveAt p s N j \<noteq> Back" "\<exists>j \<in> set [0..<n]. moveAt p s N j = Forward"
      using that by auto
    from foldIndex_forward[OF this] obtain a where a: "a < n" "moveAt p s N a = Forward"
      "\<forall>b < a. moveAt p s N b = Stay"
      "foldIndex p s N None [0..<n] = Some (sortable_index (N ! a))"
      by auto
    have "tentative = Some (sortable_index (nodes ! a))" using tent a(1,4) by (simp add: idxN)
    moreover have "\<forall>b < n. moveAt p s N b = Forward \<longrightarrow> a \<le> b
                  \<and> sortable_index (nodes ! a) \<le> sortable_index (nodes ! b)"
    proof (intro allI impI)
      fix b assume b: "b < n" "moveAt p s N b = Forward"
      then have "a \<le> b" using a(3) by (metis move.distinct(1) not_le_imp_less)
      then show "a \<le> b \<and> sortable_index (nodes ! a) \<le> sortable_index (nodes ! b)"
        using mono b(1) by simp
    qed
    ultimately show ?thesis using a(1,2) by blast
  qed
  have c4: "\<forall>j < n. (moveAt p s N j = Back \<longrightarrow> index_gt (sortable_index (nodes ! j)) (index s))
              \<and> (moveAt p s N j = Forward \<longrightarrow>
                   \<not> isOrigin s \<or> index_lt (sortable_index (nodes ! j)) (index s))"
    using moveAt_side[of p s N] idxN by metis
  show ?thesis
    unfolding Let_def N_def[symmetric] n_def[symmetric]
    using c1 c2 c3 c4 c5 by blast
qed

lemma isDragged_cache: "isDragged s (cacheEdge r) = isDragged s r"
  by (simp add: isDragged_def cacheEdge_fields)

lemma reflow_entry:
  assumes ord: "getOrderedRefs s = Inr nodes"
    and refl: "tentativeReflow p s = Inr (nodes', tentative, ghost)"
    and j: "j < length nodes"
  shows "length nodes' = length nodes"
    and "edgeOffset (nodes' ! j) = edgeOffset (cacheEdge (nodes ! j))"
    and "\<not> isDragged s (nodes ! j) \<Longrightarrow>
           \<exists>tr. decision p s (map cacheEdge nodes) j = Inr (tr, moveAt p s (map cacheEdge nodes) j)
                \<and> nodes' ! j = (cacheEdge (nodes ! j))\<lparr>sortable_translate := Some tr\<rparr>"
    and "isDragged s (nodes ! j) \<Longrightarrow>
           nodes' ! j = (if hideSortableGhost p then (cacheEdge (nodes ! j))\<lparr>style_hidden := True\<rparr>
                         else cacheEdge (nodes ! j))"
proof -
  define N where "N = map cacheEdge nodes"
  note ch = tentativeReflow_char[OF ord refl, folded N_def]
  have nj: "N ! j = cacheEdge (nodes ! j)" using j by (simp add: N_def)
  have fj: "nodes' ! j = finalRef p s N j" using ch(1) j by simp
  show "length nodes' = length nodes" using ch(1) by simp
  show "edgeOffset (nodes' ! j) = edgeOffset (cacheEdge (nodes ! j))"
    using fj by (simp add: finalRef_edge nj)
  show "\<exists>tr. decision p s (map cacheEdge nodes) j = Inr (tr, moveAt p s (map cacheEdge nodes) j)
                \<and> nodes' ! j = (cacheEdge (nodes ! j))\<lparr>sortable_translate := Some tr\<rparr>"
    if nd: "\<not> isDragged s (nodes ! j)"
  proof -
    have nd': "\<not> isDragged s (N ! j)" using nd by (simp add: nj isDragged_cache)
    then obtain v where v: "decision p s N j = Inr v" using ch(3) j by blast
    obtain tr m where vm: "v = (tr, m)" by (cases v)
    have "moveAt p s N j = m" using nd' v vm by (simp add: moveAt_def)
    moreover have "nodes' ! j = (N ! j)\<lparr>sortable_translate := Some tr\<rparr>"
      using fj nd' v vm by (simp add: finalRef_def Let_def)
    ultimately show ?thesis using v vm by (simp add: N_def[symmetric] nj)
  qed
  show "nodes' ! j = (if hideSortableGhost p then (cacheEdge (nodes ! j))\<lparr>style_hidden := True\<rparr>
                         else cacheEdge (nodes ! j))"
    if d: "isDragged s (nodes ! j)"
  proof -
    have "isDragged s (N ! j)" using d by (simp add: nj isDragged_cache)
    then show ?thesis using fj by (simp add: finalRef_def Let_def nj)
  qed
qed


lemma index_gt_not_lt: "index_gt i d \<Longrightarrow> \<not> index_lt i d"
  by (simp add: index_gt_def index_lt_def split: option.splits)

lemma gridTranslate_swaps:
  assumes "gridTranslate s (sortable_index r) (offsetHeight r) (halfWidth s r) (halfHeight s r)
             (edgeOffset r) ne pe = Inr (tr, m)"
    and "axis_x (axis s)" "axis_y (axis s)" "\<not> isDragged s r"
  shows "(m = Forward) = swapsForward p s r" "(m = Back) = swapsBack p s r"
  using assms index_gt_not_lt[of "sortable_index r" "index s"]
  by (auto simp add: gridTranslate_def swapsForward_def swapsBack_def bindE_def need_def
      overBefore_def overAfter_def isDragged_def Let_def
      split: if_splits option.splits)

lemma xTranslate_swaps:
  assumes "xTranslate s (sortable_index r) (halfWidth s r) (edgeOffset r) = Inr (tr, m)"
    and "axis_x (axis s)" "\<not> axis_y (axis s)" "\<not> isDragged s r"
  shows "(m = Forward) = swapsForward p s r" "(m = Back) = swapsBack p s r"
  using assms
  by (auto simp add: xTranslate_def swapsForward_def swapsBack_def bindE_def need_def
      isDragged_def Let_def
      split: if_splits option.splits)

lemma yTranslate_swaps:
  assumes "yTranslate p s (sortable_index r) (offsetHeight r) (edgeOffset r) (sortable_translate r)
             = Inr (tr, m)"
    and "\<not> axis_x (axis s)" "axis_y (axis s)" "\<not> isDragged s r"
  shows "(m = Forward) = swapsForward p s r" "(m = Back) = swapsBack p s r"
  using assms index_gt_not_lt[of "sortable_index r" "index s"]
  by (auto simp add: yTranslate_def swapsForward_def swapsBack_def bindE_def need_def
      isDragged_def Let_def
      split: if_splits option.splits)


lemma nodeTranslate_swaps:
  assumes "nodeTranslate p s (sortable_index r) (offsetHeight r) (halfWidth s r) (halfHeight s r)
             (edgeOffset r) ne pe (sortable_translate r) = Inr (tr, m)"
    and nd: "\<not> isDragged s r"
  shows "(m = Forward) = swapsForward p s r" "(m = Back) = swapsBack p s r"
proof -
  consider (grid) "axis_x (axis s)" "axis_y (axis s)"
    | (x) "axis_x (axis s)" "\<not> axis_y (axis s)"
    | (y) "\<not> axis_x (axis s)" "axis_y (axis s)"
    | (none) "\<not> axis_x (axis s)" "\<not> axis_y (axis s)" by blast
  then have "(m = Forward) = swapsForward p s r \<and> (m = Back) = swapsBack p s r"
  proof cases
    case grid
    then show ?thesis
      using assms gridTranslate_swaps[of s r ne pe tr m p] by (simp add: nodeTranslate_def)
  next
    case x
    then show ?thesis
      using assms xTranslate_swaps[of s r tr m p] by (simp add: nodeTranslate_def)
  next
    case y
    then show ?thesis
      using assms yTranslate_swaps[of p s r tr m] by (simp add: nodeTranslate_def)
  next
    case none
    then show ?thesis
      using assms
      by (auto simp add: nodeTranslate_def swapsForward_def swapsBack_def Let_def
          split: option.splits)
  qed
  then show "(m = Forward) = swapsForward p s r" "(m = Back) = swapsBack p s r" by simp_all
qed

lemma nodeTranslate_vector:
  assumes "nodeTranslate p s idx h ow oh eo ne pe own = Inr (tr, m)"
  shows "m = Stay \<Longrightarrow> tr = zero_vec"
    and "axis_x (axis s) \<Longrightarrow> \<not> axis_y (axis s) \<Longrightarrow>
           tr = \<lparr>vec_x = shiftOf m (width s + vec_x (marginOffset s)), vec_y = 0\<rparr>"
    and "\<not> axis_x (axis s) \<Longrightarrow> axis_y (axis s) \<Longrightarrow>
           tr = \<lparr>vec_x = 0, vec_y = shiftOf m (height s + vec_y (marginOffset s))\<rparr>"
    and "axis_x (axis s) \<Longrightarrow> axis_y (axis s) \<Longrightarrow> m = Forward \<Longrightarrow>
           tr = \<lparr>vec_x = width s + vec_x (marginOffset s), vec_y = 0\<rparr>
           \<or> (\<exists>e nx. eo = Some e \<and> ne = Some nx
                  \<and> tr = \<lparr>vec_x = edge_left nx - edge_left e, vec_y = edge_top nx - edge_top e\<rparr>)"
    and "axis_x (axis s) \<Longrightarrow> axis_y (axis s) \<Longrightarrow> m = Back \<Longrightarrow>
           tr = \<lparr>vec_x = - (width s + vec_x (marginOffset s)), vec_y = 0\<rparr>
           \<or> (\<exists>e pv. eo = Some e \<and> pe = Some pv
                  \<and> tr = \<lparr>vec_x = edge_left pv - edge_left e, vec_y = edge_top pv - edge_top e\<rparr>)"
proof -
  show "m = Stay \<Longrightarrow> tr = zero_vec"
    using assms
    by (auto simp add: nodeTranslate_def gridTranslate_def xTranslate_def yTranslate_def
        bindE_def need_def Let_def split: if_splits option.splits)
  show "axis_x (axis s) \<Longrightarrow> \<not> axis_y (axis s) \<Longrightarrow>
           tr = \<lparr>vec_x = shiftOf m (width s + vec_x (marginOffset s)), vec_y = 0\<rparr>"
    using assms
    by (auto simp add: nodeTranslate_def xTranslate_def shiftOf_def zero_vec_def
        bindE_def need_def split: if_splits option.splits)
  show "\<not> axis_x (axis s) \<Longrightarrow> axis_y (axis s) \<Longrightarrow>
           tr = \<lparr>vec_x = 0, vec_y = shiftOf m (height s + vec_y (marginOffset s))\<rparr>"
    using assms
    by (auto simp add: nodeTranslate_def yTranslate_def shiftOf_def zero_vec_def
        bindE_def need_def Let_def split: if_splits option.splits)
  show "axis_x (axis s) \<Longrightarrow> axis_y (axis s) \<Longrightarrow> m = Forward \<Longrightarrow>
           tr = \<lparr>vec_x = width s + vec_x (marginOffset s), vec_y = 0\<rparr>
           \<or> (\<exists>e nx. eo = Some e \<and> ne = Some nx
                  \<and> tr = \<lparr>vec_x = edge_left nx - edge_left e, vec_y = edge_top nx - edge_top e\<rparr>)"
    using assms
    by (auto simp add: nodeTranslate_def gridTranslate_def bindE_def need_def
        split: if_splits option.splits)
  show "axis_x (axis s) \<Longrightarrow> axis_y (axis s) \<Longrightarrow> m = Back \<Longrightarrow>
           tr = \<lparr>vec_x = - (width s + vec_x (marginOffset s)), vec_y = 0\<rparr>
           \<or> (\<exists>e pv. eo = Some e \<and> pe = Some pv
                  \<and> tr = \<lparr>vec_x = edge_left pv - edge_left e, vec_y = edge_top pv - edge_top e\<rparr>)"
    using assms
    by (auto simp add: nodeTranslate_def gridTranslate_def bindE_def need_def
        split: if_splits option.splits)
qed

lemma swaps_dragged:
  "isDragged s r \<Longrightarrow> \<not> swapsForward p s r \<and> \<not> swapsBack p s r"
  by (simp add: isDragged_def swapsForward_def swapsBack_def)

lemma moveAt_swaps:
  assumes ord: "getOrderedRefs s = Inr nodes"
    and refl: "tentativeReflow p s = Inr (nodes', tentative, ghost)"
    and j: "j < length nodes"
  shows "(moveAt p s (map cacheEdge nodes) j = Forward) = swapsForward p s (map cacheEdge nodes ! j)"
    and "(moveAt p s (map cacheEdge nodes) j = Back) = swapsBack p s (map cacheEdge nodes ! j)"
    and "(moveAt p s (map cacheEdge nodes) j = Stay)
           = (\<not> swapsForward p s (map cacheEdge nodes ! j) \<and> \<not> swapsBack p s (map cacheEdge nodes ! j))"
proof -
  define N where "N = map cacheEdge nodes"
  have nj: "N ! j = cacheEdge (nodes ! j)" using j by (simp add: N_def)
  have both: "(moveAt p s N j = Forward) = swapsForward p s (N ! j)
            \<and> (moveAt p s N j = Back) = swapsBack p s (N ! j)"
  proof (cases "isDragged s (nodes ! j)")
    case True
    then have d: "isDragged s (N ! j)" by (simp add: nj isDragged_cache)
    show ?thesis using moveAt_dragged[OF d, of p] swaps_dragged[OF d, of p] by simp
  next
    case False
    then have nd: "\<not> isDragged s (N ! j)" by (simp add: nj isDragged_cache)
    obtain tr where tr: "decision p s N j = Inr (tr, moveAt p s N j)"
      using reflow_entry(3)[OF ord refl j False] by (auto simp add: N_def)
    show ?thesis
      using nodeTranslate_swaps[OF tr[unfolded decision_def Let_def] nd] by simp
  qed
  show "(moveAt p s (map cacheEdge nodes) j = Forward) = swapsForward p s (map cacheEdge nodes ! j)"
    using both by (simp add: N_def)
  show "(moveAt p s (map cacheEdge nodes) j = Back) = swapsBack p s (map cacheEdge nodes ! j)"
    using both by (simp add: N_def)
  show "(moveAt p s (map cacheEdge nodes) j = Stay)
           = (\<not> swapsForward p s (map cacheEdge nodes ! j) \<and> \<not> swapsBack p s (map cacheEdge nodes ! j))"
    using both by (cases "moveAt p s (map cacheEdge nodes) j") (simp_all add: N_def)
qed

lemma pushed_translate:
  assumes ord: "getOrderedRefs s = Inr nodes"
    and refl: "tentativeReflow p s = Inr (nodes', tentative, ghost)"
    and j: "j < length nodes" and nd: "\<not> isDragged s (nodes ! j)"
  shows "\<exists>t. sortable_translate (nodes' ! j) = Some t
      \<and> (let fwd = swapsForward p s (map cacheEdge nodes ! j);
              back = swapsBack p s (map cacheEdge nodes ! j);
              slotX = width s + vec_x (marginOffset s);
              slotY = height s + vec_y (marginOffset s) in
           (\<not> fwd \<and> \<not> back \<longrightarrow> t = zero_vec)
         \<and> (axis_x (axis s) \<and> \<not> axis_y (axis s) \<longrightarrow>
              t = \<lparr>vec_x = (if back then - slotX else if fwd then slotX else 0), vec_y = 0\<rparr>)
         \<and> (\<not> axis_x (axis s) \<and> axis_y (axis s) \<longrightarrow>
              t = \<lparr>vec_x = 0, vec_y = (if fwd then slotY else if back then - slotY else 0)\<rparr>)
         \<and> (axis_x (axis s) \<and> axis_y (axis s) \<and> fwd \<longrightarrow>
              t = \<lparr>vec_x = slotX, vec_y = 0\<rparr>
              \<or> (\<exists>e nx. Suc j < length nodes \<and> edgeOffset (nodes' ! j) = Some e
                     \<and> edgeOffset (nodes' ! Suc j) = Some nx
                     \<and> t = \<lparr>vec_x = edge_left nx - edge_left e, vec_y = edge_top nx - edge_top e\<rparr>))
         \<and> (axis_x (axis s) \<and> axis_y (axis s) \<and> back \<longrightarrow>
              t = \<lparr>vec_x = - slotX, vec_y = 0\<rparr>
              \<or> (\<exists>e pv. 0 < j \<and> edgeOffset (nodes' ! j) = Some e
                     \<and> edgeOffset (nodes' ! (j - 1)) = Some pv
                     \<and> t = \<lparr>vec_x = edge_left pv - edge_left e, vec_y = edge_top pv - edge_top e\<rparr>)))"
proof -
  define N where "N = map cacheEdge nodes"
  define m where "m = moveAt p s N j"
  define ne where "ne = (if j < length N - 1 then edgeOffset (N ! (j + 1)) else None)"
  define pe where "pe = (if j > 0 then edgeOffset (N ! (j - 1)) else None)"
  have nj: "N ! j = cacheEdge (nodes ! j)" using j by (simp add: N_def)
  obtain tr where tr: "decision p s N j = Inr (tr, m)"
    "nodes' ! j = (cacheEdge (nodes ! j))\<lparr>sortable_translate := Some tr\<rparr>"
    using reflow_entry(3)[OF ord refl j nd] by (auto simp add: N_def m_def)
  have nt: "nodeTranslate p s (sortable_index (N ! j)) (offsetHeight (N ! j)) (halfWidth s (N ! j))
              (halfHeight s (N ! j)) (edgeOffset (N ! j)) ne pe (sortable_translate (N ! j))
            = Inr (tr, m)"
    using tr(1) by (simp add: decision_def Let_def ne_def pe_def)
  note v = nodeTranslate_vector[OF nt]
  note sw0 = moveAt_swaps[OF ord refl j, folded N_def]
  note sw = sw0[folded m_def]
  have eo: "edgeOffset (nodes' ! j) = edgeOffset (N ! j)" using tr(2) nj by simp
  have st: "sortable_translate (nodes' ! j) = Some tr" using tr(2) by simp
  have nxt: "Suc j < length nodes \<and> edgeOffset (nodes' ! Suc j) = Some nx" if "ne = Some nx" for nx
  proof -
    have lt: "j < length N - 1" using that by (simp add: ne_def split: if_splits)
    then have sj: "Suc j < length nodes" by (simp add: N_def)
    have "edgeOffset (N ! Suc j) = Some nx" using that lt by (simp add: ne_def)
    moreover have "edgeOffset (nodes' ! Suc j) = edgeOffset (cacheEdge (nodes ! Suc j))"
      using reflow_entry(2)[OF ord refl sj] .
    ultimately show ?thesis using sj by (simp add: N_def)
  qed
  have prv: "0 < j \<and> edgeOffset (nodes' ! (j - 1)) = Some pv" if "pe = Some pv" for pv
  proof -
    have lt: "0 < j" using that by (simp add: pe_def split: if_splits)
    then have sj: "j - 1 < length nodes" using j by simp
    have "edgeOffset (N ! (j - 1)) = Some pv" using that lt by (simp add: pe_def)
    moreover have "edgeOffset (nodes' ! (j - 1)) = edgeOffset (cacheEdge (nodes ! (j - 1)))"
      using reflow_entry(2)[OF ord refl sj] .
    ultimately show ?thesis using sj lt by (simp add: N_def)
  qed
  have a1: "\<not> swapsForward p s (N ! j) \<and> \<not> swapsBack p s (N ! j) \<longrightarrow> tr = zero_vec"
    using v(1) sw(3) by simp
  have a2: "axis_x (axis s) \<and> \<not> axis_y (axis s) \<longrightarrow>
              tr = \<lparr>vec_x = (if swapsBack p s (N ! j) then - (width s + vec_x (marginOffset s))
                             else if swapsForward p s (N ! j) then width s + vec_x (marginOffset s)
                             else 0), vec_y = 0\<rparr>"
    using v(2) sw by (cases m) (auto simp add: shiftOf_def)
  have a3: "\<not> axis_x (axis s) \<and> axis_y (axis s) \<longrightarrow>
              tr = \<lparr>vec_x = 0, vec_y = (if swapsForward p s (N ! j) then height s + vec_y (marginOffset s)
                             else if swapsBack p s (N ! j) then - (height s + vec_y (marginOffset s))
                             else 0)\<rparr>"
    using v(3) sw by (cases m) (auto simp add: shiftOf_def)
  have a4: "axis_x (axis s) \<and> axis_y (axis s) \<and> swapsForward p s (N ! j) \<longrightarrow>
              tr = \<lparr>vec_x = width s + vec_x (marginOffset s), vec_y = 0\<rparr>
              \<or> (\<exists>e nx. Suc j < length nodes \<and> edgeOffset (nodes' ! j) = Some e
                     \<and> edgeOffset (nodes' ! Suc j) = Some nx
                     \<and> tr = \<lparr>vec_x = edge_left nx - edge_left e, vec_y = edge_top nx - edge_top e\<rparr>)"
    using v(4) sw(1) nxt eo by fastforce
  have a5: "axis_x (axis s) \<and> axis_y (axis s) \<and> swapsBack p s (N ! j) \<longrightarrow>
              tr = \<lparr>vec_x = - (width s + vec_x (marginOffset s)), vec_y = 0\<rparr>
              \<or> (\<exists>e pv. 0 < j \<and> edgeOffset (nodes' ! j) = Some e
                     \<and> edgeOffset (nodes' ! (j - 1)) = Some pv
                     \<and> tr = \<lparr>vec_x = edge_left pv - edge_left e, vec_y = edge_top pv - edge_top e\<rparr>)"
    using v(5) sw(2) prv eo by fastforce
  show ?thesis
    unfolding Let_def N_def[symmetric]
    by (intro exI[of _ tr] conjI) (rule st, rule a1, rule a2, rule a3, rule a4, rule a5)
qed

text \<open>
  C2.  Let the reflow run to its default step on the ordered entries \<open>nodes\<close>.
  Every entry but the dragged one is given a translate: zero when the entry satisfies
  neither swap condition, one slot along the axis (in a grid one slot or, wrapped, the
  neighbour's cached offset minus its own) in the direction of the condition it
  satisfies.  If no entry satisfies its swap condition, the tentative new index is the
  drag's original index.  If some entry satisfies the backward condition (an
  after-dragged item), the tentative index is the index of the last such entry, the
  highest among them.  If none does and some entry satisfies the forward condition, it
  is the index of the first such entry, the lowest among them.  An entry pushed back has
  an index above the dragged one, and, in a drag that started in this container, an
  entry pushed forward has an index below it.  When the drop is allowed,
  \<open>animateNodes\<close> leaves that tentative index in \<open>newIndex\<close>.
\<close>

theorem tentative_newIndex:
  assumes ord: "getOrderedRefs s = Inr nodes"
    and refl: "tentativeReflow p s = Inr (nodes', tentative, ghost)"
  shows "(let N = map cacheEdge nodes; n = length nodes in
     (\<forall>j < n. \<not> isDragged s (nodes ! j) \<longrightarrow>
        (\<exists>t. sortable_translate (nodes' ! j) = Some t
          \<and> (let fwd = swapsForward p s (N ! j);
                  back = swapsBack p s (N ! j);
                  slotX = width s + vec_x (marginOffset s);
                  slotY = height s + vec_y (marginOffset s) in
               (\<not> fwd \<and> \<not> back \<longrightarrow> t = zero_vec)
             \<and> (axis_x (axis s) \<and> \<not> axis_y (axis s) \<longrightarrow>
                  t = \<lparr>vec_x = (if back then - slotX else if fwd then slotX else 0), vec_y = 0\<rparr>)
             \<and> (\<not> axis_x (axis s) \<and> axis_y (axis s) \<longrightarrow>
                  t = \<lparr>vec_x = 0, vec_y = (if fwd then slotY else if back then - slotY else 0)\<rparr>)
             \<and> (axis_x (axis s) \<and> axis_y (axis s) \<and> fwd \<longrightarrow>
                  t = \<lparr>vec_x = slotX, vec_y = 0\<rparr>
                  \<or> (\<exists>e nx. Suc j < length nodes \<and> edgeOffset (nodes' ! j) = Some e
                         \<and> edgeOffset (nodes' ! Suc j) = Some nx
                         \<and> t = \<lparr>vec_x = edge_left nx - edge_left e,
                                 vec_y = edge_top nx - edge_top e\<rparr>))
             \<and> (axis_x (axis s) \<and> axis_y (axis s) \<and> back \<longrightarrow>
                  t = \<lparr>vec_x = - slotX, vec_y = 0\<rparr>
                  \<or> (\<exists>e pv. 0 < j \<and> edgeOffset (nodes' ! j) = Some e
                         \<and> edgeOffset (nodes' ! (j - 1)) = Some pv
                         \<and> t = \<lparr>vec_x = edge_left pv - edge_left e,
                                 vec_y = edge_top pv - edge_top e\<rparr>)))))
   \<and> ((\<forall>j < n. \<not> swapsForward p s (N ! j) \<and> \<not> swapsBack p s (N ! j)) \<longrightarrow> tentative = index s)
   \<and> ((\<exists>j < n. swapsBack p s (N ! j)) \<longrightarrow>
        (\<exists>a < n. swapsBack p s (N ! a) \<and> tentative = Some (sortable_index (nodes ! a))
            \<and> (\<forall>b < n. swapsBack p s (N ! b) \<longrightarrow> b \<le> a
                  \<and> sortable_index (nodes ! b) \<le> sortable_index (nodes ! a))))
   \<and> ((\<forall>j < n. \<not> swapsBack p s (N ! j)) \<and> (\<exists>j < n. swapsForward p s (N ! j)) \<longrightarrow>
        (\<exists>a < n. swapsForward p s (N ! a) \<and> tentative = Some (sortable_index (nodes ! a))
            \<and> (\<forall>b < n. swapsForward p s (N ! b) \<longrightarrow> a \<le> b
                  \<and> sortable_index (nodes ! a) \<le> sortable_index (nodes ! b))))
   \<and> (\<forall>j < n. (swapsBack p s (N ! j) \<longrightarrow> index_gt (sortable_index (nodes ! j)) (index s))
              \<and> (swapsForward p s (N ! j) \<longrightarrow>
                   \<not> isOrigin s \<or> index_lt (sortable_index (nodes ! j)) (index s)))
   \<and> (\<forall>s'. animateNodes p s = Inr s' \<and> isDropAllowed p s tentative = Inr True \<longrightarrow>
          newIndex s' = tentative))"
proof -
  note sw = moveAt_swaps[OF ord refl]
  have main: "((\<forall>j < length nodes. \<not> swapsForward p s (map cacheEdge nodes ! j)
                    \<and> \<not> swapsBack p s (map cacheEdge nodes ! j)) \<longrightarrow> tentative = index s)
   \<and> ((\<exists>j < length nodes. swapsBack p s (map cacheEdge nodes ! j)) \<longrightarrow>
        (\<exists>a < length nodes. swapsBack p s (map cacheEdge nodes ! a)
            \<and> tentative = Some (sortable_index (nodes ! a))
            \<and> (\<forall>b < length nodes. swapsBack p s (map cacheEdge nodes ! b) \<longrightarrow> b \<le> a
                  \<and> sortable_index (nodes ! b) \<le> sortable_index (nodes ! a))))
   \<and> ((\<forall>j < length nodes. \<not> swapsBack p s (map cacheEdge nodes ! j))
        \<and> (\<exists>j < length nodes. swapsForward p s (map cacheEdge nodes ! j)) \<longrightarrow>
        (\<exists>a < length nodes. swapsForward p s (map cacheEdge nodes ! a)
            \<and> tentative = Some (sortable_index (nodes ! a))
            \<and> (\<forall>b < length nodes. swapsForward p s (map cacheEdge nodes ! b) \<longrightarrow> a \<le> b
                  \<and> sortable_index (nodes ! a) \<le> sortable_index (nodes ! b))))
   \<and> (\<forall>j < length nodes.
          (swapsBack p s (map cacheEdge nodes ! j) \<longrightarrow> index_gt (sortable_index (nodes ! j)) (index s))
        \<and> (swapsForward p s (map cacheEdge nodes ! j) \<longrightarrow>
              \<not> isOrigin s \<or> index_lt (sortable_index (nodes ! j)) (index s)))
   \<and> (\<forall>s'. animateNodes p s = Inr s' \<and> isDropAllowed p s tentative = Inr True \<longrightarrow>
          newIndex s' = tentative)"
    using newIndex_by_moves[OF ord refl]
    unfolding Let_def
    by (simp add: sw cong: conj_cong)
  have tr: "\<forall>j < length nodes. \<not> isDragged s (nodes ! j) \<longrightarrow>
        (\<exists>t. sortable_translate (nodes' ! j) = Some t
          \<and> (let fwd = swapsForward p s (map cacheEdge nodes ! j);
                  back = swapsBack p s (map cacheEdge nodes ! j);
                  slotX = width s + vec_x (marginOffset s);
                  slotY = height s + vec_y (marginOffset s) in
               (\<not> fwd \<and> \<not> back \<longrightarrow> t = zero_vec)
             \<and> (axis_x (axis s) \<and> \<not> axis_y (axis s) \<longrightarrow>
                  t = \<lparr>vec_x = (if back then - slotX else if fwd then slotX else 0), vec_y = 0\<rparr>)
             \<and> (\<not> axis_x (axis s) \<and> axis_y (axis s) \<longrightarrow>
                  t = \<lparr>vec_x = 0, vec_y = (if fwd then slotY else if back then - slotY else 0)\<rparr>)
             \<and> (axis_x (axis s) \<and> axis_y (axis s) \<and> fwd \<longrightarrow>
                  t = \<lparr>vec_x = slotX, vec_y = 0\<rparr>
                  \<or> (\<exists>e nx. Suc j < length nodes \<and> edgeOffset (nodes' ! j) = Some e
                         \<and> edgeOffset (nodes' ! Suc j) = Some nx
                         \<and> t = \<lparr>vec_x = edge_left nx - edge_left e,
                                 vec_y = edge_top nx - edge_top e\<rparr>))
             \<and> (axis_x (axis s) \<and> axis_y (axis s) \<and> back \<longrightarrow>
                  t = \<lparr>vec_x = - slotX, vec_y = 0\<rparr>
                  \<or> (\<exists>e pv. 0 < j \<and> edgeOffset (nodes' ! j) = Some e
                         \<and> edgeOffset (nodes' ! (j - 1)) = Some pv
                         \<and> t = \<lparr>vec_x = edge_left pv - edge_left e,
                                 vec_y = edge_top pv - edge_top e\<rparr>))))"
    using pushed_translate[OF ord refl] by blast
  show ?thesis
    unfolding Let_def
    by (rule conjI[OF tr[unfolded Let_def] main])
qed

lemma vertical_ordered:
  "getOrderedRefs vertical_drag = Inr vertical_items"
  by code_simp

lemma vertical_tentative:
  "map_sum id (fst \<circ> snd) (tentativeReflow default_props vertical_drag) = Inr (Some 1)"
  by code_simp

lemma grid_ordered: "getOrderedRefs grid_drag_up = Inr grid_items"
  by code_simp

lemma grid_up_reflow:
  "map_sum id (\<lambda>(ns, k, g). (map sortable_translate ns, map edgeOffset ns, k))
     (tentativeReflow grid_props grid_drag_up)
   = Inr ([Some \<lparr>vec_x = 0, vec_y = 0\<rparr>, Some \<lparr>vec_x = - 100, vec_y = 100\<rparr>,
           Some \<lparr>vec_x = 100, vec_y = 0\<rparr>, Some \<lparr>vec_x = 0, vec_y = 0\<rparr>],
          [Some \<lparr>edge_top = 0, edge_left = 0\<rparr>, Some \<lparr>edge_top = 0, edge_left = 100\<rparr>,
           Some \<lparr>edge_top = 100, edge_left = 0\<rparr>, Some \<lparr>edge_top = 100, edge_left = 100\<rparr>],
          Some 1)"
  by code_simp

lemma grid_down_ordered: "getOrderedRefs grid_drag_down = Inr grid_items_first"
  by code_simp

lemma grid_pressed_ordered: "getOrderedRefs grid_pressed = Inr grid_items"
  by code_simp

lemma grid_down_tentative:
  "map_sum id (fst \<circ> snd) (tentativeReflow grid_props grid_drag_down) = Inr (Some 3)"
  by code_simp

lemma grid_pressed_tentative:
  "map_sum id (\<lambda>(ns, k, g). (map sortable_translate ns, k)) (tentativeReflow grid_props grid_pressed)
     = Inr ([Some \<lparr>vec_x = 0, vec_y = 0\<rparr>, Some \<lparr>vec_x = 0, vec_y = 0\<rparr>,
             Some \<lparr>vec_x = 0, vec_y = 0\<rparr>, Some \<lparr>vec_x = 0, vec_y = 0\<rparr>], Some 3)"
  by code_simp

lemma four_cases: "j < 4 \<Longrightarrow> j = 0 \<or> j = 1 \<or> j = 2 \<or> j = (3::nat)"
  by arith


lemma grid_up_pushes:
  "\<not> swapsForward grid_props grid_drag_up (map cacheEdge grid_items ! 0)
   \<and> swapsForward grid_props grid_drag_up (map cacheEdge grid_items ! 1)
   \<and> swapsForward grid_props grid_drag_up (map cacheEdge grid_items ! 2)
   \<and> \<not> swapsForward grid_props grid_drag_up (map cacheEdge grid_items ! 3)
   \<and> \<not> swapsBack grid_props grid_drag_up (map cacheEdge grid_items ! 0)
   \<and> \<not> swapsBack grid_props grid_drag_up (map cacheEdge grid_items ! 1)
   \<and> \<not> swapsBack grid_props grid_drag_up (map cacheEdge grid_items ! 2)
   \<and> \<not> swapsBack grid_props grid_drag_up (map cacheEdge grid_items ! 3)
   \<and> length grid_items = 4"
  by code_simp

lemma grid_down_pushes:
  "\<not> swapsBack grid_props grid_drag_down (map cacheEdge grid_items_first ! 0)
   \<and> swapsBack grid_props grid_drag_down (map cacheEdge grid_items_first ! 1)
   \<and> swapsBack grid_props grid_drag_down (map cacheEdge grid_items_first ! 2)
   \<and> swapsBack grid_props grid_drag_down (map cacheEdge grid_items_first ! 3)
   \<and> length grid_items_first = 4"
  by code_simp

lemma grid_pressed_pushes:
  "\<not> swapsForward grid_props grid_pressed (map cacheEdge grid_items ! 0)
   \<and> \<not> swapsForward grid_props grid_pressed (map cacheEdge grid_items ! 1)
   \<and> \<not> swapsForward grid_props grid_pressed (map cacheEdge grid_items ! 2)
   \<and> \<not> swapsForward grid_props grid_pressed (map cacheEdge grid_items ! 3)
   \<and> \<not> swapsBack grid_props grid_pressed (map cacheEdge grid_items ! 0)
   \<and> \<not> swapsBack grid_props grid_pressed (map cacheEdge grid_items ! 1)
   \<and> \<not> swapsBack grid_props grid_pressed (map cacheEdge grid_items ! 2)
   \<and> \<not> swapsBack grid_props grid_pressed (map cacheEdge grid_items ! 3)
   \<and> \<not> isDragged grid_pressed (grid_items ! 1)"
  by code_simp

theorem tentative_newIndex_witness:
  "\<exists>up gu down gd rest gr.
      getOrderedRefs grid_drag_up = Inr grid_items
    \<and> tentativeReflow grid_props grid_drag_up = Inr (up, Some 1, gu)
    \<and> swapsForward grid_props grid_drag_up (map cacheEdge grid_items ! 1)
    \<and> swapsForward grid_props grid_drag_up (map cacheEdge grid_items ! 2)
    \<and> (\<forall>j < length grid_items. \<not> swapsBack grid_props grid_drag_up (map cacheEdge grid_items ! j))
    \<and> (\<exists>a < length grid_items.
          swapsForward grid_props grid_drag_up (map cacheEdge grid_items ! a)
          \<and> Some 1 = Some (sortable_index (grid_items ! a))
          \<and> (\<forall>b < length grid_items.
                swapsForward grid_props grid_drag_up (map cacheEdge grid_items ! b) \<longrightarrow> a \<le> b
                \<and> sortable_index (grid_items ! a) \<le> sortable_index (grid_items ! b)))
    \<and> getOrderedRefs grid_drag_down = Inr grid_items_first
    \<and> tentativeReflow grid_props grid_drag_down = Inr (down, Some 3, gd)
    \<and> swapsBack grid_props grid_drag_down (map cacheEdge grid_items_first ! 1)
    \<and> swapsBack grid_props grid_drag_down (map cacheEdge grid_items_first ! 3)
    \<and> (\<exists>a < length grid_items_first.
          swapsBack grid_props grid_drag_down (map cacheEdge grid_items_first ! a)
          \<and> Some 3 = Some (sortable_index (grid_items_first ! a))
          \<and> (\<forall>b < length grid_items_first.
                swapsBack grid_props grid_drag_down (map cacheEdge grid_items_first ! b) \<longrightarrow> b \<le> a
                \<and> sortable_index (grid_items_first ! b) \<le> sortable_index (grid_items_first ! a)))
    \<and> getOrderedRefs grid_pressed = Inr grid_items
    \<and> tentativeReflow grid_props grid_pressed = Inr (rest, Some 3, gr)
    \<and> (\<forall>j < length grid_items.
          \<not> swapsForward grid_props grid_pressed (map cacheEdge grid_items ! j)
          \<and> \<not> swapsBack grid_props grid_pressed (map cacheEdge grid_items ! j))
    \<and> Some 3 = index grid_pressed
    \<and> sortable_translate (rest ! 1) = Some zero_vec"
proof -
  obtain up gu where u: "tentativeReflow grid_props grid_drag_up = Inr (up, Some 1, gu)"
    using grid_up_reflow by (cases "tentativeReflow grid_props grid_drag_up") auto
  obtain down gd where d: "tentativeReflow grid_props grid_drag_down = Inr (down, Some 3, gd)"
    using grid_down_tentative by (cases "tentativeReflow grid_props grid_drag_down") auto
  obtain rest gr where r: "tentativeReflow grid_props grid_pressed = Inr (rest, Some 3, gr)"
    using grid_pressed_tentative by (cases "tentativeReflow grid_props grid_pressed") auto
  note cu = grid_up_pushes
  note cd = grid_down_pushes
  note cr = grid_pressed_pushes
  have four: "j = 0 \<or> j = 1 \<or> j = 2 \<or> j = 3" if "j < length grid_items" for j
    using that cu four_cases by simp
  have j1: "1 < length grid_items" using cu by simp
  have j1f: "1 < length grid_items_first" using cd by simp
  have nb: "\<forall>j < length grid_items. \<not> swapsBack grid_props grid_drag_up (map cacheEdge grid_items ! j)"
    using four cu by blast
  have fw: "\<exists>j < length grid_items. swapsForward grid_props grid_drag_up (map cacheEdge grid_items ! j)"
    using cu j1 by blast
  have bk: "\<exists>j < length grid_items_first.
              swapsBack grid_props grid_drag_down (map cacheEdge grid_items_first ! j)"
    using cd j1f by blast
  have none: "\<forall>j < length grid_items.
          \<not> swapsForward grid_props grid_pressed (map cacheEdge grid_items ! j)
          \<and> \<not> swapsBack grid_props grid_pressed (map cacheEdge grid_items ! j)"
    using four cr by blast
  note tu = tentative_newIndex[OF grid_ordered u, unfolded Let_def]
  note td = tentative_newIndex[OF grid_down_ordered d, unfolded Let_def]
  note tr = tentative_newIndex[OF grid_pressed_ordered r, unfolded Let_def]
  note low = tu[THEN conjunct2, THEN conjunct2, THEN conjunct2, THEN conjunct1, THEN mp,
      OF conjI[OF nb fw]]
  note high = td[THEN conjunct2, THEN conjunct2, THEN conjunct1, THEN mp, OF bk]
  note same = tr[THEN conjunct2, THEN conjunct1, THEN mp, OF none]
  have nd: "\<not> isDragged grid_pressed (grid_items ! 1)" using cr by simp
  from tr[THEN conjunct1, rule_format, OF j1 nd]
  obtain t where t: "sortable_translate (rest ! 1) = Some t"
    "\<not> swapsForward grid_props grid_pressed (map cacheEdge grid_items ! 1)
       \<and> \<not> swapsBack grid_props grid_pressed (map cacheEdge grid_items ! 1) \<longrightarrow> t = zero_vec"
    by blast
  have zero: "sortable_translate (rest ! 1) = Some zero_vec" using t cr by blast
  have f1: "swapsForward grid_props grid_drag_up (map cacheEdge grid_items ! 1)"
    and f2: "swapsForward grid_props grid_drag_up (map cacheEdge grid_items ! 2)"
    using cu by blast+
  have b1: "swapsBack grid_props grid_drag_down (map cacheEdge grid_items_first ! 1)"
    and b3: "swapsBack grid_props grid_drag_down (map cacheEdge grid_items_first ! 3)"
    using cd by blast+
  show ?thesis
    by (intro exI[of _ up] exI[of _ gu] exI[of _ down] exI[of _ gd] exI[of _ rest] exI[of _ gr]
          conjI)
       (rule grid_ordered, rule u, rule f1, rule f2, rule nb, rule low, rule grid_down_ordered,
        rule d, rule b1, rule b3, rule high, rule grid_pressed_ordered, rule r, rule none,
        rule same, rule zero)
qed


text \<open>
  The reflow returns whenever the entries can be ordered and no entry's decision
  raises; on a single axis that is the case when every entry can be measured and
  carries a translate object.
\<close>

lemma reflow_returns:
  assumes ord: "getOrderedRefs s = Inr nodes"
    and ok: "\<forall>j < length nodes. isDragged s (map cacheEdge nodes ! j)
                \<or> (\<exists>v. decision p s (map cacheEdge nodes) j = Inr v)"
  shows "\<exists>v. tentativeReflow p s = Inr v"
proof -
  define N where "N = map cacheEdge nodes"
  have lenN: "length N = length nodes" by (simp add: N_def)
  have cached: "\<forall>j < length N. cacheEdge (N ! j) = N ! j" by (simp add: N_def cacheEdge_idem)
  have inv0: "loopInv p s N 0 nodes" unfolding N_def by (rule loopInv_init)
  have "\<forall>j. 0 \<le> j \<and> j < length N \<longrightarrow> isDragged s (N ! j) \<or> (\<exists>v. decision p s N j = Inr v)"
    using ok by (simp add: N_def)
  from animateLoop_total[OF inv0 _ cached this, of None "sortableGhost s"]
  obtain st' where "animateLoop p s (length nodes) 0 (nodes, None, sortableGhost s) = Inr st'"
    by (auto simp add: lenN)
  then show ?thesis
    using ord by (cases st') (simp add: tentativeReflow_def bindE_def)
qed

lemma single_axis_decides:
  assumes "\<not> (axis_x (axis s) \<and> axis_y (axis s))" "eo = Some e" "own = Some t"
  shows "\<exists>v. nodeTranslate p s idx h ow oh eo ne pe own = Inr v"
  using assms
  by (auto simp add: nodeTranslate_def xTranslate_def yTranslate_def bindE_def need_def Let_def
      split: option.splits)

lemma single_axis_reflow_returns:
  assumes ord: "getOrderedRefs s = Inr nodes"
    and single: "\<not> (axis_x (axis s) \<and> axis_y (axis s))"
    and meas: "\<forall>r \<in> set nodes. edgeOffset (cacheEdge r) \<noteq> None \<and> sortable_translate r \<noteq> None"
  shows "\<exists>v. tentativeReflow p s = Inr v"
proof (rule reflow_returns[OF ord], intro allI impI)
  fix j assume j: "j < length nodes"
  then have "nodes ! j \<in> set nodes" by simp
  then obtain e t where e: "edgeOffset (cacheEdge (nodes ! j)) = Some e"
    "sortable_translate (nodes ! j) = Some t"
    using meas by auto
  have "\<exists>v. decision p s (map cacheEdge nodes) j = Inr v"
    unfolding decision_def Let_def
    using j e by (intro single_axis_decides[OF single]) (simp_all add: cacheEdge_fields)
  then show "isDragged s (map cacheEdge nodes ! j)
                \<or> (\<exists>v. decision p s (map cacheEdge nodes) j = Inr v)" by blast
qed

section \<open>Construction, cancel and end\<close>

text \<open>
  C7.  Constructing a container raises the invariant on the two activation options
  exactly when \<open>distance\<close> and \<open>pressDelay\<close> are both truthy; with at most one of
  them truthy the constructor returns the new instance.
\<close>

theorem construct_exclusive:
  "(construct p = Inl (Invariant ''Attempted to set both `pressDelay` and `distance` on SortableContainer, you may only use one or the other, not both at the same time.''))
     = (truthy (distance p) \<and> truthy (pressDelay p))
   \<and> (construct p = Inr init_container) = (\<not> truthy (distance p) \<or> \<not> truthy (pressDelay p))"
  by (auto simp add: construct_def)

theorem construct_exclusive_witness:
  "construct (default_props\<lparr>distance := 10, pressDelay := 200\<rparr>)
     = Inl (Invariant ''Attempted to set both `pressDelay` and `distance` on SortableContainer, you may only use one or the other, not both at the same time.'')
   \<and> construct (default_props\<lparr>distance := 10\<rparr>) = Inr init_container
   \<and> construct (default_props\<lparr>pressDelay := 200\<rparr>) = Inr init_container
   \<and> construct default_props = Inr init_container"
  using construct_exclusive [of "default_props\<lparr>distance := 10, pressDelay := 200\<rparr>"]
        construct_exclusive [of "default_props\<lparr>distance := 10\<rparr>"]
        construct_exclusive [of "default_props\<lparr>pressDelay := 200\<rparr>"]
        construct_exclusive [of "default_props"]
  by (simp add: default_props_def truthy_def)

lemma handleSortEnd_clears:
  "handleSortEnd p s = Inr s1 \<Longrightarrow> manager_active s1 = None"
  by (auto simp add: handleSortEnd_def need_def bindE_def Let_def split: option.splits)

text \<open>
  C4.  With no active marker, \<open>handleSortEnd\<close> raises a TypeError at its first
  statement, the destructuring of \<open>this.manager.active\<close>, so an end handler that runs
  again after it has ended a session faults; \<open>cancel\<close> does not fault, is idempotent
  and leaves the marker \<open>null\<close>.
\<close>

theorem handleSortEnd_without_session:
  "manager_active s = None \<Longrightarrow>
     handleSortEnd p s = Inl TypeError \<and> cancel (cancel s) = cancel s
     \<and> manager_active (cancel s) = None
     \<and> (\<forall>s0. handleSortEnd p s0 = Inr s \<longrightarrow>
            bindE (handleSortEnd p s0) (handleSortEnd p) = Inl TypeError)"
  by (simp add: handleSortEnd_def need_def bindE_def cancel_def)

lemma grid_pressed_end:
  "map_sum id manager_active (handleSortEnd grid_props grid_pressed) = Inr None"
  by code_simp

theorem handleSortEnd_without_session_witness:
  "manager_active init_container = None \<and> handleSortEnd default_props init_container = Inl TypeError
   \<and> cancel init_container = init_container
   \<and> (\<exists>s. handleSortEnd grid_props grid_pressed = Inr s
          \<and> bindE (handleSortEnd grid_props grid_pressed) (handleSortEnd grid_props) = Inl TypeError)"
proof -
  obtain s where s: "handleSortEnd grid_props grid_pressed = Inr s"
    using grid_pressed_end by (cases "handleSortEnd grid_props grid_pressed") auto
  have "manager_active s = None" using handleSortEnd_clears[OF s] .
  from handleSortEnd_without_session[OF this, of grid_props] s
  have "bindE (handleSortEnd grid_props grid_pressed) (handleSortEnd grid_props) = Inl TypeError"
    by blast
  then show ?thesis
    using handleSortEnd_without_session [of init_container default_props] s
    by (simp add: init_container_def cancel_def)
qed



section \<open>The swap rule on a single axis\<close>












section \<open>Row wrap in a grid\<close>



lemma applyTransform_none:
  "sortable_translate r = None \<Longrightarrow> applyTransform p a r = r"
  by (simp add: applyTransform_def)

lemma applyTransform_some:
  "sortable_translate r = Some t \<Longrightarrow>
     sortable_translate (applyTransform p a r) = Some (if a then t else \<lparr>vec_x = 0, vec_y = 0\<rparr>)
     \<and> style_transform (applyTransform p a r)
         = Some (if a then Translate3d (vec_x t) (vec_y t) else Translate3d 0 0)
     \<and> (truthy (transitionDuration p) \<longrightarrow>
          style_transitionDuration (applyTransform p a r) = Some (DurationMs (transitionDuration p)))"
  by (simp add: applyTransform_def Let_def)

lemma animateNodes_result:
  assumes refl: "tentativeReflow p s = Inr (nodes', tentative, ghost)"
    and allow: "isDropAllowed p s tentative = Inr allowed"
    and act: "manager_active s = Some a"
  shows "animateNodes p s =
     Inr (s\<lparr>manager_refs := (manager_refs s)
               (active_collection a := Some (map (applyTransform p allowed) nodes')),
            newIndex := (if \<not> allowed then index s else tentative),
            sortableGhost := ghost\<rparr>)"
  using assms by (simp add: animateNodes_def bindE_def need_def)














section \<open>Drop validation\<close>



lemma autoscroll_frame:
  "index (autoscroll s) = index s" "newIndex (autoscroll s) = newIndex s"
  "manager_active (autoscroll s) = manager_active s" "emitted (autoscroll s) = emitted s"
  "translate (autoscroll s) = translate s" "manager_refs (autoscroll s) = manager_refs s"
  by (simp_all add: autoscroll_def Let_def split: prod.splits)


lemma reflow_translates:
  assumes ord: "getOrderedRefs s = Inr nodes"
    and refl: "tentativeReflow p s = Inr (nodes', tentative, ghost)"
    and j: "j < length nodes"
  shows "sortable_index (nodes' ! j) = sortable_index (nodes ! j)"
    and "\<not> isDragged s (nodes ! j) \<Longrightarrow> \<exists>t. sortable_translate (nodes' ! j) = Some t"
    and "isDragged s (nodes ! j) \<Longrightarrow> sortable_translate (nodes' ! j) = sortable_translate (nodes ! j)"
    and "isDragged s (nodes ! j) \<Longrightarrow> style_transform (nodes' ! j) = style_transform (nodes ! j)"
proof -
  note e = reflow_entry[OF ord refl j]
  show "sortable_index (nodes' ! j) = sortable_index (nodes ! j)"
  proof (cases "isDragged s (nodes ! j)")
    case True
    then show ?thesis using e(4) by (simp add: cacheEdge_fields)
  next
    case False
    then show ?thesis using e(3) by (auto simp add: cacheEdge_fields)
  qed
  show "\<exists>t. sortable_translate (nodes' ! j) = Some t" if "\<not> isDragged s (nodes ! j)"
    using e(3)[OF that] by auto
  show "sortable_translate (nodes' ! j) = sortable_translate (nodes ! j)" if "isDragged s (nodes ! j)"
    using e(4)[OF that] by (simp add: cacheEdge_fields)
  show "style_transform (nodes' ! j) = style_transform (nodes ! j)" if "isDragged s (nodes ! j)"
    using e(4)[OF that] by (simp add: cacheEdge_def)
qed

lemma animateNodes_translate:
  assumes "animateNodes p s = Inr s1"
  shows "translate s1 = translate s" "index s1 = index s"
  using assms
  by (auto simp add: animateNodes_def bindE_def need_def split: sum.splits option.splits)













section \<open>Where transforms are written\<close>

lemma updatePosition_helper:
  assumes "updatePosition p s e = Inr s1"
  shows "manager_refs s1 = manager_refs s"
    and "helper s \<noteq> None \<Longrightarrow>
           helper s1 = Some (Some (Translate3d (vec_x (translate s1)) (vec_y (translate s1))))"
    and "helper s = None \<Longrightarrow> helper s1 = None"
  using assms
  by (auto simp add: updatePosition_def bindE_def Let_def split: sum.splits if_splits prod.splits)

text \<open>
  C9, as amended.  On every reflow the first loop computes a translate for every entry
  but the dragged one, whose stored translate it leaves alone; the second loop then
  writes the transform \<open>translate3d\<close> of the stored translate (zero when the drop is
  vetoed), and the transition duration when that is non-zero, on every entry that has
  a translate object, the dragged one included.  Only an entry without a translate
  object is skipped, and only the dragged one can be.  \<open>updatePosition\<close> touches no
  entry and positions the helper, when there is one, by its own translate.
\<close>

theorem transform_on_every_entry:
  assumes ord: "getOrderedRefs s = Inr nodes"
    and refl: "tentativeReflow p s = Inr (nodes', tentative, ghost)"
    and allow: "isDropAllowed p s tentative = Inr allowed"
    and act: "manager_active s = Some a"
  shows "\<exists>s' rs. animateNodes p s = Inr s'
     \<and> manager_refs s' (active_collection a) = Some rs \<and> length rs = length nodes
     \<and> (\<forall>j < length nodes.
           (\<not> isDragged s (nodes ! j) \<longrightarrow> (\<exists>t. sortable_translate (rs ! j) = Some t))
         \<and> (isDragged s (nodes ! j) \<longrightarrow>
               sortable_translate (rs ! j)
                 = (if allowed then sortable_translate (nodes ! j)
                    else map_option (\<lambda>t. \<lparr>vec_x = 0, vec_y = 0\<rparr>) (sortable_translate (nodes ! j))))
         \<and> (\<forall>t. sortable_translate (rs ! j) = Some t \<longrightarrow>
               style_transform (rs ! j) = Some (Translate3d (vec_x t) (vec_y t))
               \<and> (truthy (transitionDuration p) \<longrightarrow>
                    style_transitionDuration (rs ! j) = Some (DurationMs (transitionDuration p))))
         \<and> (sortable_translate (rs ! j) = None \<longrightarrow>
               isDragged s (nodes ! j) \<and> style_transform (rs ! j) = style_transform (nodes ! j)))
     \<and> (\<forall>e s1. updatePosition p s e = Inr s1 \<longrightarrow>
           manager_refs s1 = manager_refs s
           \<and> (helper s \<noteq> None \<longrightarrow>
                helper s1 = Some (Some (Translate3d (vec_x (translate s1)) (vec_y (translate s1))))))"
proof -
  define rs where "rs = map (applyTransform p allowed) nodes'"
  define s' where "s' = s\<lparr>manager_refs := (manager_refs s)(active_collection a := Some rs),
                          newIndex := (if \<not> allowed then index s else tentative),
                          sortableGhost := ghost\<rparr>"
  have an: "animateNodes p s = Inr s'"
    using animateNodes_result[OF refl allow act] by (simp add: s'_def rs_def)
  have len: "length nodes' = length nodes"
    using arg_cong[OF tentativeReflow_char(1)[OF ord refl], of length] by simp
  have rsj: "rs ! j = applyTransform p allowed (nodes' ! j)" if "j < length nodes" for j
    using that len by (simp add: rs_def)
  have per: "(\<not> isDragged s (nodes ! j) \<longrightarrow> (\<exists>t. sortable_translate (rs ! j) = Some t))
         \<and> (isDragged s (nodes ! j) \<longrightarrow>
               sortable_translate (rs ! j)
                 = (if allowed then sortable_translate (nodes ! j)
                    else map_option (\<lambda>t. \<lparr>vec_x = 0, vec_y = 0\<rparr>) (sortable_translate (nodes ! j))))
         \<and> (\<forall>t. sortable_translate (rs ! j) = Some t \<longrightarrow>
               style_transform (rs ! j) = Some (Translate3d (vec_x t) (vec_y t))
               \<and> (truthy (transitionDuration p) \<longrightarrow>
                    style_transitionDuration (rs ! j) = Some (DurationMs (transitionDuration p))))
         \<and> (sortable_translate (rs ! j) = None \<longrightarrow>
               isDragged s (nodes ! j) \<and> style_transform (rs ! j) = style_transform (nodes ! j))"
    if j: "j < length nodes" for j
  proof (cases "sortable_translate (nodes' ! j)")
    case None
    have d: "isDragged s (nodes ! j)" using reflow_translates(2)[OF ord refl j] None by auto
    have "rs ! j = nodes' ! j" using rsj[OF j] None by (simp add: applyTransform_none)
    then show ?thesis
      using None d reflow_translates(3,4)[OF ord refl j d] by simp
  next
    case (Some t)
    note a = applyTransform_some[OF Some, of p allowed, folded rsj[OF j]]
    have "isDragged s (nodes ! j) \<Longrightarrow> sortable_translate (nodes ! j) = Some t"
      using reflow_translates(3)[OF ord refl j] Some by simp
    then show ?thesis using a by (cases allowed) auto
  qed
  have "manager_refs s' (active_collection a) = Some rs" "length rs = length nodes"
    using len by (simp_all add: s'_def rs_def)
  then show ?thesis using an per updatePosition_helper(1,2) by blast
qed


theorem transform_on_every_entry_witness:
  "\<exists>nodes' ghost s' rs.
      getOrderedRefs vertical_drag = Inr vertical_items
      \<and> tentativeReflow default_props vertical_drag = Inr (nodes', Some 1, ghost)
      \<and> isDropAllowed default_props vertical_drag (Some 1) = Inr True
      \<and> manager_active vertical_drag = Some \<lparr>active_index = Some 0, active_collection = 0\<rparr>
      \<and> animateNodes default_props vertical_drag = Inr s'
      \<and> manager_refs s' 0 = Some rs
      \<and> isDragged vertical_drag (vertical_items ! 0)
      \<and> sortable_translate (rs ! 0) = Some \<lparr>vec_x = 0, vec_y = 0\<rparr>
      \<and> style_transform (rs ! 0) = Some (Translate3d 0 0)"
proof -
  define nodes where "nodes = vertical_items"
  obtain nodes' ghost where
    r: "tentativeReflow default_props vertical_drag = Inr (nodes', Some 1, ghost)"
    using vertical_tentative by (cases "tentativeReflow default_props vertical_drag") auto
  have al: "isDropAllowed default_props vertical_drag (Some 1) = Inr True"
    by (simp add: isDropAllowed_def default_props_def)
  have act: "manager_active vertical_drag = Some \<lparr>active_index = Some 0, active_collection = 0\<rparr>"
    by (simp add: vertical_drag_def)
  have d: "isDragged vertical_drag (nodes ! 0)"
    by (simp add: nodes_def vertical_items_def pressed_def isDragged_def item_def vertical_drag_def)
  have t0: "sortable_translate (nodes ! 0) = Some \<lparr>vec_x = 0, vec_y = 0\<rparr>"
    by (simp add: nodes_def vertical_items_def pressed_def item_def)
  from transform_on_every_entry[OF vertical_ordered[folded nodes_def] r al act]
  obtain s' rs where s': "animateNodes default_props vertical_drag = Inr s'"
    "manager_refs s' (active_collection \<lparr>active_index = Some 0, active_collection = 0\<rparr>) = Some rs"
    and per: "\<forall>j < length nodes.
           (\<not> isDragged vertical_drag (nodes ! j) \<longrightarrow> (\<exists>t. sortable_translate (rs ! j) = Some t))
         \<and> (isDragged vertical_drag (nodes ! j) \<longrightarrow>
               sortable_translate (rs ! j)
                 = (if True then sortable_translate (nodes ! j)
                    else map_option (\<lambda>t. \<lparr>vec_x = 0, vec_y = 0\<rparr>) (sortable_translate (nodes ! j))))
         \<and> (\<forall>t. sortable_translate (rs ! j) = Some t \<longrightarrow>
               style_transform (rs ! j) = Some (Translate3d (vec_x t) (vec_y t))
               \<and> (truthy (transitionDuration default_props) \<longrightarrow>
                    style_transitionDuration (rs ! j)
                      = Some (DurationMs (transitionDuration default_props))))
         \<and> (sortable_translate (rs ! j) = None \<longrightarrow>
               isDragged vertical_drag (nodes ! j)
               \<and> style_transform (rs ! j) = style_transform (nodes ! j))"
    by blast
  have "0 < length nodes" by (simp add: nodes_def vertical_items_def)
  with per d t0 have "sortable_translate (rs ! 0) = Some \<lparr>vec_x = 0, vec_y = 0\<rparr>"
    "style_transform (rs ! 0) = Some (Translate3d 0 0)"
    by auto
  then show ?thesis
    using vertical_ordered r al act s' d unfolding nodes_def by auto
qed

text \<open>
  C9 as stated fails: after a reflow of the vertical list the dragged element, the
  first entry, which had no transform, carries \<open>translate3d(0px,0px,0)\<close>.
\<close>

theorem dragged_entry_gets_transform:
  "transformsOf (animateNodes default_props vertical_drag) 0
     = Some [Some (Translate3d 0 0), Some (Translate3d 0 (- 100)), Some (Translate3d 0 0)]
   \<and> manager_refs vertical_drag 0 = Some vertical_items
   \<and> isDragged vertical_drag (vertical_items ! 0)
   \<and> style_transform (vertical_items ! 0) = None"
  by code_simp



section \<open>Axis lock\<close>

lemma updatePosition_lock_x:
  assumes "lockAxis p = Some ''x''" "updatePosition p s e = Inr s1"
  shows "vec_y (translate s1) = 0"
  using assms
  by (auto simp add: updatePosition_def bindE_def Let_def split: sum.splits if_splits prod.splits)

lemma updatePosition_total:
  assumes "touches e = None" "\<not> lockToContainerEdges p"
  shows "\<exists>s1. updatePosition p s e = Inr s1"
  using assms by (simp add: updatePosition_def bindE_def getOffset_def Let_def)

lemma autoscrollTick_translate:
  assumes "autoscrollTick p s = Inr s1"
  shows "vec_y (translate s1) = vec_y (translate s)
           + (case autoscrollInterval s of None \<Rightarrow> 0
              | Some tm \<Rightarrow> vec_y (timer_speed tm) * vec_y (timer_direction tm))"
proof (cases "autoscrollInterval s")
  case None
  then show ?thesis using assms by (simp add: autoscrollTick_def)
next
  case (Some tm)
  then show ?thesis
    using assms animateNodes_translate(1)[of p _ s1]
    by (simp add: autoscrollTick_def Let_def)
qed

lemma handleSortMove_lock_x:
  assumes "lockAxis p = Some ''x''" "handleSortMove p s e = Inr s1"
  shows "vec_y (translate s1) = 0"
proof -
  obtain sa sb where a: "updatePosition p (if paused s then s\<lparr>paused := False\<rparr> else s) e = Inr sa"
    and b: "animateNodes p sa = Inr sb" and c: "s1 = autoscroll sb"
    using assms(2) by (auto simp add: handleSortMove_def bindE_def split: sum.splits)
  show ?thesis
    using updatePosition_lock_x[OF assms(1) a] animateNodes_translate(1)[OF b] c
    by (simp add: autoscroll_frame)
qed

text \<open>
  C5, as amended.  With \<open>lockAxis\<close> set to \<open>"x"\<close>, the translate that
  \<open>updatePosition\<close> computes has \<open>y = 0\<close> for every pointer position (and
  \<open>updatePosition\<close> returns for every mouse event when the edges are not locked), so
  the state after every pointer move of a session has \<open>translate.y = 0\<close>;
  \<open>animateNodes\<close> and \<open>autoscroll\<close> leave the translate as it is.  A firing of the autoscroll timer adds
  \<open>speed.y * direction.y\<close> to \<open>translate.y\<close>, whatever \<open>lockAxis\<close> is: while the
  timer runs, \<open>translate.y\<close> stays 0 only if that product is 0.
\<close>

lemma runSteps_snoc:
  "runSteps p s (xs @ [x]) = bindE (runSteps p s xs) (\<lambda>s'. step p s' x)"
  by (induction xs arbitrary: s) (auto simp add: bindE_def split: sum.splits)

lemma session_move_lock_x:
  assumes "lockAxis p = Some ''x''" "runSteps p s (xs @ [Move e]) = Inr s1"
  shows "vec_y (translate s1) = 0"
proof -
  obtain s' where "handleSortMove p s' e = Inr s1"
    using assms(2) by (auto simp add: runSteps_snoc bindE_def step_def split: sum.splits)
  then show ?thesis using handleSortMove_lock_x[OF assms(1)] by blast
qed

theorem lockAxis_x_translate:
  assumes lock: "lockAxis p = Some ''x''"
  shows "(\<forall>e s1. updatePosition p s e = Inr s1 \<longrightarrow> vec_y (translate s1) = 0)
     \<and> (\<forall>e. touches e = None \<and> \<not> lockToContainerEdges p \<longrightarrow>
            (\<exists>s1. updatePosition p s e = Inr s1))
     \<and> (\<forall>e s1. handleSortMove p s e = Inr s1 \<longrightarrow> vec_y (translate s1) = 0)
     \<and> (\<forall>xs e s1. runSteps p s (xs @ [Move e]) = Inr s1 \<longrightarrow> vec_y (translate s1) = 0)
     \<and> (\<forall>s1. animateNodes p s = Inr s1 \<longrightarrow> translate s1 = translate s)
     \<and> translate (autoscroll s) = translate s
     \<and> (\<forall>s1. autoscrollTick p s = Inr s1 \<longrightarrow>
           vec_y (translate s1) = vec_y (translate s)
             + (case autoscrollInterval s of None \<Rightarrow> 0
                | Some tm \<Rightarrow> vec_y (timer_speed tm) * vec_y (timer_direction tm)))"
  using updatePosition_lock_x[OF lock] updatePosition_total handleSortMove_lock_x[OF lock]
    session_move_lock_x[OF lock] animateNodes_translate(1) autoscroll_frame(5)
    autoscrollTick_translate
  by blast

theorem lockAxis_x_translate_witness:
  "lockAxis lock_props = Some ''x''
   \<and> touches sample_move = None \<and> \<not> lockToContainerEdges lock_props
   \<and> (\<exists>s1. updatePosition lock_props edge_pressed sample_move = Inr s1
          \<and> vec_y (translate s1) = 0)"
proof -
  have l: "lockAxis lock_props = Some ''x''" "touches sample_move = None"
    "\<not> lockToContainerEdges lock_props"
    by (simp_all add: lock_props_def grid_props_def default_props_def sample_move_def pointer_at_def)
  from lockAxis_x_translate[OF l(1), of edge_pressed] l show ?thesis by blast
qed

text \<open>
  C5 as stated fails while the timer runs: the pressed item reaches 10 pixels below the
  scrollable container, so after a pointer move, with \<open>translate.y = 0\<close>, the timer
  is installed with vertical direction 1 and speed 1, and its first firing leaves
  \<open>translate.y = 1\<close>.
\<close>

theorem lock_x_drifts_under_autoscroll:
  "lockAxis lock_props = Some ''x''
   \<and> map_sum id translate (handleSortMove lock_props edge_pressed sample_move)
       = Inr \<lparr>vec_x = 30, vec_y = 0\<rparr>
   \<and> map_sum id autoscrollInterval (handleSortMove lock_props edge_pressed sample_move)
       = Inr (Some \<lparr>timer_speed = \<lparr>vec_x = 1, vec_y = 1\<rparr>,
                     timer_direction = \<lparr>vec_x = 0, vec_y = 1\<rparr>\<rparr>)
   \<and> map_sum id translate (runSteps lock_props edge_pressed [Move sample_move, Tick])
       = Inr \<lparr>vec_x = 30, vec_y = 1\<rparr>"
  by code_simp



section \<open>Autoscroll zones\<close>

lemma js_ge_nearMax: "js_ge t (map_option (\<lambda>m. m - e / 2) b) = nearMax t b e"
  by (simp add: js_ge_def nearMax_def split: option.splits)

lemma js_le_nearMin: "js_le t (map_option (\<lambda>m. m + e / 2) b) = nearMin t b e"
  by (simp add: js_le_def nearMin_def split: option.splits)

lemma speed_past_max:
  assumes "0 < (e::real)" "t \<ge> b - e / 2"
  shows "10 * \<bar>(b - e / 2 - t) / e\<bar> = 10 * (t - (b - e / 2)) / e"
proof -
  have "(b - e / 2 - t) / e \<le> 0" using assms by (simp add: divide_le_0_iff)
  then have "\<bar>(b - e / 2 - t) / e\<bar> = - ((b - e / 2 - t) / e)" by (rule abs_of_nonpos)
  also have "\<dots> = (t - (b - e / 2)) / e"
    by (simp only: minus_divide_left minus_diff_eq)
  finally show ?thesis by simp
qed

lemma speed_past_min:
  assumes "0 < (e::real)" "t \<le> b + e / 2"
  shows "10 * \<bar>(t - e / 2 - b) / e\<bar> = 10 * ((b + e / 2) - t) / e"
proof -
  have "(t - e / 2 - b) / e \<le> 0" using assms by (simp add: divide_le_0_iff)
  then have "\<bar>(t - e / 2 - b) / e\<bar> = - ((t - e / 2 - b) / e)" by (rule abs_of_nonpos)
  also have "\<dots> = ((b + e / 2) - t) / e"
    by (simp add: minus_divide_left algebra_simps del: minus_divide_left[symmetric])
  finally show ?thesis by simp
qed

lemma autoscroll_interval:
  "autoscrollInterval (autoscroll s) =
     (let t = translate s; w = width s; h = height s in
      if nearMax (vec_y t) (ovec_y (maxTranslate s)) h then
        Some \<lparr>timer_speed = \<lparr>vec_x = 1, vec_y = 10 * \<bar>(the (ovec_y (maxTranslate s)) - h / 2 - vec_y t) / h\<bar>\<rparr>,
              timer_direction = \<lparr>vec_x = 0, vec_y = 1\<rparr>\<rparr>
      else if nearMax (vec_x t) (ovec_x (maxTranslate s)) w then
        Some \<lparr>timer_speed = \<lparr>vec_x = 10 * \<bar>(the (ovec_x (maxTranslate s)) - w / 2 - vec_x t) / w\<bar>, vec_y = 1\<rparr>,
              timer_direction = \<lparr>vec_x = 1, vec_y = 0\<rparr>\<rparr>
      else if nearMin (vec_y t) (ovec_y (minTranslate s)) h then
        Some \<lparr>timer_speed = \<lparr>vec_x = 1, vec_y = 10 * \<bar>(vec_y t - h / 2 - the (ovec_y (minTranslate s))) / h\<bar>\<rparr>,
              timer_direction = \<lparr>vec_x = 0, vec_y = - 1\<rparr>\<rparr>
      else if nearMin (vec_x t) (ovec_x (minTranslate s)) w then
        Some \<lparr>timer_speed = \<lparr>vec_x = 10 * \<bar>(vec_x t - w / 2 - the (ovec_x (minTranslate s))) / w\<bar>, vec_y = 1\<rparr>,
              timer_direction = \<lparr>vec_x = - 1, vec_y = 0\<rparr>\<rparr>
      else None)"
  by (simp add: autoscroll_def Let_def js_ge_nearMax js_le_nearMin)

text \<open>
  C8, as amended.  For positive extents, \<open>autoscroll\<close> tests four zones in the order
  max \<open>y\<close>, max \<open>x\<close>, min \<open>y\<close>, min \<open>x\<close>, where a zone holds when the translate is
  within half an extent of its bound or beyond it, and scrolls along one axis only:
  the direction of the first zone that holds is set (down, right, up, left) and the
  other axis keeps direction 0.  The speed on that axis is 10 times the distance of
  the translate past the zone's boundary divided by the extent: 0 at the boundary and
  linear in the distance.  When no zone holds the direction is zero and no timer is
  left installed.
\<close>

theorem autoscroll_zones:
  assumes pos: "0 < width s" "0 < height s"
  shows "(let tx = vec_x (translate s); ty = vec_y (translate s); w = width s; h = height s;
              down = nearMax ty (ovec_y (maxTranslate s)) h;
              right = nearMax tx (ovec_x (maxTranslate s)) w;
              up = nearMin ty (ovec_y (minTranslate s)) h;
              left = nearMin tx (ovec_x (minTranslate s)) w;
              timer = autoscrollInterval (autoscroll s) in
     (\<forall>b. ovec_y (maxTranslate s) = Some b \<and> down \<longrightarrow>
        timer = Some \<lparr>timer_speed = \<lparr>vec_x = 1, vec_y = 10 * (ty - (b - h / 2)) / h\<rparr>,
                      timer_direction = \<lparr>vec_x = 0, vec_y = 1\<rparr>\<rparr>)
   \<and> (\<forall>b. ovec_x (maxTranslate s) = Some b \<and> \<not> down \<and> right \<longrightarrow>
        timer = Some \<lparr>timer_speed = \<lparr>vec_x = 10 * (tx - (b - w / 2)) / w, vec_y = 1\<rparr>,
                      timer_direction = \<lparr>vec_x = 1, vec_y = 0\<rparr>\<rparr>)
   \<and> (\<forall>b. ovec_y (minTranslate s) = Some b \<and> \<not> down \<and> \<not> right \<and> up \<longrightarrow>
        timer = Some \<lparr>timer_speed = \<lparr>vec_x = 1, vec_y = 10 * ((b + h / 2) - ty) / h\<rparr>,
                      timer_direction = \<lparr>vec_x = 0, vec_y = - 1\<rparr>\<rparr>)
   \<and> (\<forall>b. ovec_x (minTranslate s) = Some b \<and> \<not> down \<and> \<not> right \<and> \<not> up \<and> left \<longrightarrow>
        timer = Some \<lparr>timer_speed = \<lparr>vec_x = 10 * ((b + w / 2) - tx) / w, vec_y = 1\<rparr>,
                      timer_direction = \<lparr>vec_x = - 1, vec_y = 0\<rparr>\<rparr>)
   \<and> (\<not> down \<and> \<not> right \<and> \<not> up \<and> \<not> left \<longrightarrow> timer = None))"
proof -
  define tx where "tx = vec_x (translate s)"
  define ty where "ty = vec_y (translate s)"
  define w where "w = width s"
  define h where "h = height s"
  note ai = autoscroll_interval[of s, unfolded Let_def, folded tx_def ty_def w_def h_def]
  have a: "autoscrollInterval (autoscroll s)
             = Some \<lparr>timer_speed = \<lparr>vec_x = 1, vec_y = 10 * (ty - (b - h / 2)) / h\<rparr>,
                      timer_direction = \<lparr>vec_x = 0, vec_y = 1\<rparr>\<rparr>"
    if "ovec_y (maxTranslate s) = Some b" "nearMax ty (ovec_y (maxTranslate s)) h" for b
  proof -
    have "ty \<ge> b - h / 2" using that by (simp add: nearMax_def)
    then show ?thesis using that ai speed_past_max[of h ty b] pos(2) by (simp add: h_def)
  qed
  have b: "autoscrollInterval (autoscroll s)
             = Some \<lparr>timer_speed = \<lparr>vec_x = 10 * (tx - (b - w / 2)) / w, vec_y = 1\<rparr>,
                      timer_direction = \<lparr>vec_x = 1, vec_y = 0\<rparr>\<rparr>"
    if "ovec_x (maxTranslate s) = Some b" "\<not> nearMax ty (ovec_y (maxTranslate s)) h"
      "nearMax tx (ovec_x (maxTranslate s)) w" for b
  proof -
    have "tx \<ge> b - w / 2" using that by (simp add: nearMax_def)
    then show ?thesis using that ai speed_past_max[of w tx b] pos(1) by (simp add: w_def)
  qed
  have c: "autoscrollInterval (autoscroll s)
             = Some \<lparr>timer_speed = \<lparr>vec_x = 1, vec_y = 10 * ((b + h / 2) - ty) / h\<rparr>,
                      timer_direction = \<lparr>vec_x = 0, vec_y = - 1\<rparr>\<rparr>"
    if "ovec_y (minTranslate s) = Some b" "\<not> nearMax ty (ovec_y (maxTranslate s)) h"
      "\<not> nearMax tx (ovec_x (maxTranslate s)) w" "nearMin ty (ovec_y (minTranslate s)) h" for b
  proof -
    have "ty \<le> b + h / 2" using that by (simp add: nearMin_def)
    then show ?thesis using that ai speed_past_min[of h ty b] pos(2) by (simp add: h_def)
  qed
  have d: "autoscrollInterval (autoscroll s)
             = Some \<lparr>timer_speed = \<lparr>vec_x = 10 * ((b + w / 2) - tx) / w, vec_y = 1\<rparr>,
                      timer_direction = \<lparr>vec_x = - 1, vec_y = 0\<rparr>\<rparr>"
    if "ovec_x (minTranslate s) = Some b" "\<not> nearMax ty (ovec_y (maxTranslate s)) h"
      "\<not> nearMax tx (ovec_x (maxTranslate s)) w" "\<not> nearMin ty (ovec_y (minTranslate s)) h"
      "nearMin tx (ovec_x (minTranslate s)) w" for b
  proof -
    have "tx \<le> b + w / 2" using that by (simp add: nearMin_def)
    then show ?thesis using that ai speed_past_min[of w tx b] pos(1) by (simp add: w_def)
  qed
  have e: "autoscrollInterval (autoscroll s) = None"
    if "\<not> nearMax ty (ovec_y (maxTranslate s)) h"
      "\<not> nearMax tx (ovec_x (maxTranslate s)) w" "\<not> nearMin ty (ovec_y (minTranslate s)) h"
      "\<not> nearMin tx (ovec_x (minTranslate s)) w"
    using that ai by simp
  show ?thesis
    unfolding Let_def tx_def[symmetric] ty_def[symmetric] w_def[symmetric] h_def[symmetric]
    using a b c d e by blast
qed

theorem autoscroll_zones_witness:
  "0 < width corner_drag \<and> 0 < height corner_drag
   \<and> ovec_y (maxTranslate corner_drag) = Some 150
   \<and> nearMax (vec_y (translate corner_drag)) (ovec_y (maxTranslate corner_drag)) (height corner_drag)
   \<and> autoscrollInterval (autoscroll corner_drag)
       = Some \<lparr>timer_speed = \<lparr>vec_x = 1, vec_y = 2\<rparr>,
                timer_direction = \<lparr>vec_x = 0, vec_y = 1\<rparr>\<rparr>"
proof -
  have p: "0 < width corner_drag" "0 < height corner_drag"
    "ovec_y (maxTranslate corner_drag) = Some 150"
    "nearMax (vec_y (translate corner_drag)) (ovec_y (maxTranslate corner_drag)) (height corner_drag)"
    "vec_y (translate corner_drag) = 120" "height corner_drag = 100"
    by (simp_all add: corner_drag_def grid_drag_down_def grid_pressed_def nearMax_def)
  from autoscroll_zones[OF p(1,2), unfolded Let_def, THEN conjunct1, rule_format, OF conjI[OF p(3,4)]]
  show ?thesis using p by simp
qed

text \<open>
  C8 as stated fails in a grid: with the translate within half an extent of both
  maximum bounds, the horizontal direction is 0 although the translate is in the
  horizontal zone.
\<close>

theorem autoscroll_one_axis_at_a_time:
  "autoscrollInterval (autoscroll corner_drag)
     = Some \<lparr>timer_speed = \<lparr>vec_x = 1, vec_y = 2\<rparr>, timer_direction = \<lparr>vec_x = 0, vec_y = 1\<rparr>\<rparr>
   \<and> nearMax (vec_x (translate corner_drag)) (ovec_x (maxTranslate corner_drag)) (width corner_drag)"
  by code_simp


end
